theory Spec2Isabelle
  imports Main "HOL-Library.Multiset" "HOL-Library.Sublist"
begin

section \<open>Data model of \<open>rigging/completion.py\<close>\<close>

text \<open>
  The external collaborators of the module are not part of the repository's sources:
  \<open>Usage\<close> and the values of the \<open>dict[str, Any]\<close> fields are opaque types, and
  \<open>GenerateParams\<close> is the type parameter \<open>'p\<close>, with its two operations passed in
  the record \<open>env\<close> below.
\<close>

typedecl usage
typedecl any

type_synonym anydict = "string \<rightharpoonup> any"

text \<open>
  Modelled from the spec: \<open>StopReason\<close> (declared in \<open>rigging.generator.base\<close>, which is
  not among the sources) is the enumeration stop, length, content_filter, tool_calls,
  unknown of the backend contract.
\<close>

datatype stop_reason = SR_stop | SR_length | SR_content_filter | SR_tool_calls | SR_unknown

text \<open>
  Every exception that the modelled code raises. \<open>ValueError\<close> carries one of two messages;
  the second one formats the expected count.
\<close>

datatype error =
    ValueError_both_flags
  | ValueError_params_count int
  | CompletionExhaustedMaxRoundsError int string
  | UnboundLocalError
  | StopIteration
  | IndexError

text \<open>
  \<open>class Completion\<close>. The fields \<open>uuid\<close> and \<open>timestamp\<close> (random and clock values) and
  \<open>generator\<close> (a reference to the backend object) are left out; no operation below
  reads them.
\<close>

record 'p completion =
  c_text :: string
  c_generated :: string
  c_metadata :: anydict
  c_stop_reason :: stop_reason
  c_usage :: "usage option"
  c_extra :: anydict
  c_params :: "'p option"
  c_failed :: bool

text \<open>\<open>Completion.__len__\<close>: Python takes the truth value of a completion from it.\<close>

definition completion_len :: "'p completion \<Rightarrow> nat" where
  "completion_len c = length (c_text c) + length (c_generated c)"

definition truthy :: "'p completion \<Rightarrow> bool" where
  "truthy c = (completion_len c \<noteq> 0)"

text \<open>The element type of the list that \<open>Generator.generate_texts\<close> returns.\<close>

record generated_text =
  g_text :: string
  g_stop_reason :: stop_reason
  g_usage :: "usage option"
  g_extra :: anydict

text \<open>
  The callbacks. An Until callback is a function of the text; Then and Map callbacks are
  functions of their argument (what a callback does besides returning is outside the
  model); a Watch callback returns nothing, so only its identity \<open>'w\<close> and the arguments
  it is called with are modelled.
\<close>

type_synonym until_callback = "string \<Rightarrow> bool"
type_synonym 'p then_callback = "'p completion \<Rightarrow> 'p completion option"
type_synonym 'p map_callback = "'p completion list \<Rightarrow> 'p completion list"

text \<open>The attributes of a \<open>CompletionPipeline\<close> that a run reads.\<close>

record ('p, 'w) pipeline =
  p_text :: string
  p_params :: "'p option"
  p_metadata :: anydict
  until_callbacks :: "(until_callback \<times> bool \<times> int) list"
  then_callbacks :: "'p then_callback list"
  map_callbacks :: "'p map_callback list"
  watch_callbacks :: "'w list"

section \<open>The retry generator \<open>_process\<close>\<close>

text \<open>
  \<open>_process\<close> is a Python generator. Its frame is the record \<open>processor\<close>: the locals
  \<open>current_round\<close>, \<open>should_retry\<close> and \<open>generated\<close> (\<open>None\<close> while unbound). Running the
  generator up to its next suspension gives an \<open>outcome\<close>: it yields, it returns a value
  (\<open>StopIteration\<close> with that value at the caller), or it raises.
\<close>

record processor =
  current_round :: int
  should_retry :: bool
  generated :: "string option"

datatype outcome = Yielded | Returned string | Raised error

definition new_processor :: processor where
  "new_processor = \<lparr>current_round = 0, should_retry = True, generated = None\<rparr>"

text \<open>\<open>min((c[2] for c in self.until_callbacks), default=1)\<close>\<close>

fun min_default :: "int list \<Rightarrow> int \<Rightarrow> int" where
  "min_default [] d = d"
| "min_default (x # xs) d = fold min xs x"

definition lowest_max_rounds :: "('p, 'w) pipeline \<Rightarrow> int" where
  "lowest_max_rounds P = min_default (map (\<lambda>c. snd (snd c)) (until_callbacks P)) 1"

text \<open>
  The \<open>for\<close> loop of lines 542 to 545. Each callback's result is assigned to
  \<open>should_retry\<close>; the \<open>continue\<close> under \<open>if should_retry\<close> is the last statement of the
  loop body, so both branches go on with the next callback.
\<close>

fun run_until_callbacks ::
  "string \<Rightarrow> (until_callback \<times> bool \<times> int) list \<Rightarrow> string \<Rightarrow> bool \<Rightarrow> bool" where
  "run_until_callbacks txt [] gen sr = sr"
| "run_until_callbacks txt ((callback, use_all_text, mr) # cbs) gen sr =
     (let sr' = callback (if use_all_text then txt @ gen else gen)
      in if sr' then run_until_callbacks txt cbs gen sr'
         else run_until_callbacks txt cbs gen sr')"

text \<open>
  The head of the \<open>while\<close> loop and what follows the loop: either the loop is entered and
  the generator suspends at the \<open>yield\<close> of line 541, or the loop is left and the generator
  raises or returns. Reading \<open>generated\<close> while it is unbound raises \<open>UnboundLocalError\<close>.
\<close>

definition loop_head :: "('p, 'w) pipeline \<Rightarrow> processor \<Rightarrow> processor \<times> outcome" where
  "loop_head P p =
     (if should_retry p \<and> current_round p < lowest_max_rounds P
      then (p\<lparr>current_round := current_round p + 1\<rparr>, Yielded)
      else (case generated p of
              None \<Rightarrow> (p, Raised UnboundLocalError)
            | Some g \<Rightarrow>
                if should_retry p
                then (p, Raised (CompletionExhaustedMaxRoundsError (lowest_max_rounds P) g))
                else (p, Returned g)))"

text \<open>\<open>next(processor)\<close> on a fresh generator: run to the first \<open>yield\<close>.\<close>

definition proc_next :: "('p, 'w) pipeline \<Rightarrow> processor \<times> outcome" where
  "proc_next P =
     (if until_callbacks P = [] then (new_processor, Yielded)
      else loop_head P new_processor)"

text \<open>\<open>processor.send(chunk)\<close> on a suspended generator.\<close>

definition proc_send :: "('p, 'w) pipeline \<Rightarrow> processor \<Rightarrow> string \<Rightarrow> processor \<times> outcome" where
  "proc_send P p chunk =
     (if until_callbacks P = [] then (p\<lparr>generated := Some chunk\<rparr>, Returned chunk)
      else loop_head P
             (p\<lparr>generated := Some chunk,
                should_retry :=
                  run_until_callbacks (p_text P) (until_callbacks P) chunk (should_retry p)\<rparr>))"

text \<open>
  One request driven alone: the generator is primed and then fed the chunks of the
  successive rounds until it stops yielding. The result is the frame and the outcome
  at the end, with the chunks that were not consumed.
\<close>

fun feed :: "('p, 'w) pipeline \<Rightarrow> processor \<Rightarrow> outcome \<Rightarrow> string list
    \<Rightarrow> processor \<times> outcome \<times> string list" where
  "feed P p Yielded (chunk # chunks) =
     (case proc_send P p chunk of (p', out') \<Rightarrow> feed P p' out' chunks)"
| "feed P p out chunks = (p, out, chunks)"

definition process :: "('p, 'w) pipeline \<Rightarrow> string list \<Rightarrow> processor \<times> outcome \<times> string list" where
  "process P chunks = (case proc_next P of (p, out) \<Rightarrow> feed P p out chunks)"

section \<open>The executor: \<open>run_many\<close>, \<open>run_batch\<close>, \<open>run\<close>\<close>

text \<open>
  The collaborators. \<open>generate_texts\<close> is the backend's batched call; besides the two
  argument lists it is given the calls made before it in the same run, so that it may
  answer the same request differently from round to round. \<open>merge_with\<close> and
  \<open>GenerateParams\<close> (the default-constructed parameters) belong to the class
  \<open>GenerateParams\<close>, whose instances are always true in a Boolean context. A call of
  the backend that raises is outside the model.
\<close>

record 'p env =
  generate_texts :: "(string list \<times> 'p list) list \<Rightarrow> string list \<Rightarrow> 'p list \<Rightarrow> generated_text list"
  merge_with :: "'p \<Rightarrow> 'p option \<Rightarrow> 'p"
  GenerateParams :: 'p

definition fit_params ::
  "'p env \<Rightarrow> ('p, 'w) pipeline \<Rightarrow> int \<Rightarrow> 'p option list option \<Rightarrow> error + 'p list" where
  "fit_params E P cnt params =
     (let ps = (case params of None \<Rightarrow> replicate (nat cnt) None | Some l \<Rightarrow> l)
      in if int (length ps) \<noteq> cnt then Inl (ValueError_params_count cnt)
         else
           let ps' = (case p_params P of
                        None \<Rightarrow> ps
                      | Some own \<Rightarrow> map (\<lambda>p. Some (merge_with E own p)) ps)
           in Inr (map (\<lambda>p. case p of None \<Rightarrow> GenerateParams E | Some q \<Rightarrow> q) ps'))"

text \<open>\<open>class RunState\<close>; the generator object is held by its frame.\<close>

record 'p run_state =
  rs_text :: string
  rs_params :: 'p
  rs_processor :: processor
  rs_completion :: "'p completion option"
  rs_watched :: bool

definition RunState :: "string \<Rightarrow> 'p \<Rightarrow> 'p run_state" where
  "RunState txt ps =
     \<lparr>rs_text = txt, rs_params = ps, rs_processor = new_processor,
      rs_completion = None, rs_watched = False\<rparr>"

text \<open>
  \<open>_ = [next(state.processor) for state in states]\<close>. The generator cannot return
  before its first \<open>yield\<close>; the model is total, and a return there would reach the
  caller as \<open>StopIteration\<close>.
\<close>

fun prime :: "('p, 'w) pipeline \<Rightarrow> 'p run_state list \<Rightarrow> error + 'p run_state list" where
  "prime P [] = Inr []"
| "prime P (s # ss) =
     (case proc_next P of
        (p, Yielded) \<Rightarrow>
          (case prime P ss of
             Inl e \<Rightarrow> Inl e
           | Inr ss' \<Rightarrow> Inr (s\<lparr>rs_processor := p\<rparr> # ss'))
      | (p, Returned v) \<Rightarrow> Inl StopIteration
      | (p, Raised e) \<Rightarrow> Inl e)"

text \<open>The two \<open>Completion(...)\<close> constructor calls of the loop body.\<close>

definition new_completion ::
  "('p, 'w) pipeline \<Rightarrow> 'p run_state \<Rightarrow> generated_text \<Rightarrow> string \<Rightarrow> bool \<Rightarrow> 'p completion" where
  "new_completion P s inbound gen failed =
     \<lparr>c_text = p_text P, c_generated = gen, c_metadata = p_metadata P,
      c_stop_reason = g_stop_reason inbound, c_usage = g_usage inbound,
      c_extra = g_extra inbound, c_params = Some (rs_params s), c_failed = failed\<rparr>"

text \<open>
  The body of \<open>for inbound, state in zip(inbounds, pending_states)\<close>: the \<open>try\<close> statement
  around \<open>state.processor.send(inbound.text)\<close>. The result is the state after the
  statement and the exception that leaves it, if any.
\<close>

definition drive ::
  "('p, 'w) pipeline \<Rightarrow> bool \<Rightarrow> bool \<Rightarrow> 'p run_state \<Rightarrow> generated_text
    \<Rightarrow> 'p run_state \<times> error option" where
  "drive P skip_failed include_failed s inbound =
     (case proc_send P (rs_processor s) (g_text inbound) of
        (p, out) \<Rightarrow>
          (case out of
             Yielded \<Rightarrow> (s\<lparr>rs_processor := p\<rparr>, None)
           | Returned v \<Rightarrow>
               (s\<lparr>rs_processor := p,
                  rs_completion := Some (new_completion P s inbound v False)\<rparr>, None)
           | Raised e \<Rightarrow>
               (case e of
                  CompletionExhaustedMaxRoundsError n g \<Rightarrow>
                    if \<not> skip_failed \<and> \<not> include_failed
                    then (s\<lparr>rs_processor := p\<rparr>, Some e)
                    else (s\<lparr>rs_processor := p,
                            rs_completion := Some (new_completion P s inbound g True)\<rparr>, None)
                | _ \<Rightarrow> (s\<lparr>rs_processor := p\<rparr>, Some e))))"

text \<open>
  \<open>pending_states\<close> and \<open>to_watch_states\<close> are lists of references to the objects of
  \<open>states\<close>: in the model they are lists of positions in \<open>states\<close>, and an assignment to
  an attribute of one of their elements updates \<open>states\<close> at that position.
\<close>

fun fan_in ::
  "('p, 'w) pipeline \<Rightarrow> bool \<Rightarrow> bool \<Rightarrow> (generated_text \<times> nat) list \<Rightarrow> 'p run_state list
    \<Rightarrow> 'p run_state list \<times> error option" where
  "fan_in P skip_failed include_failed [] states = (states, None)"
| "fan_in P skip_failed include_failed ((inbound, i) # rest) states =
     (case drive P skip_failed include_failed (states ! i) inbound of
        (s', Some e) \<Rightarrow> (states[i := s'], Some e)
      | (s', None) \<Rightarrow> fan_in P skip_failed include_failed rest (states[i := s']))"

text \<open>
  \<open>_watch_callback\<close>: every registered Watch callback is called with the list. The model
  returns the calls, in the order of the list of callbacks.
\<close>

definition watch_callback :: "('p, 'w) pipeline \<Rightarrow> 'p completion list \<Rightarrow> ('w \<times> 'p completion list) list" where
  "watch_callback P completions = map (\<lambda>callback. (callback, completions)) (watch_callbacks P)"

text \<open>
  The state of the \<open>while pending_states\<close> loop, with the two traces a run leaves outside
  itself: the calls of the backend and the calls of the Watch callbacks. \<open>ls_raised\<close>
  holds the exception that left the loop.
\<close>

record ('p, 'w) loop_state =
  ls_states :: "'p run_state list"
  ls_pending :: "nat list"
  ls_calls :: "(string list \<times> 'p list) list"
  ls_watch_log :: "('w \<times> 'p completion list) list"
  ls_raised :: "error option"

definition init_loop :: "'p run_state list \<Rightarrow> ('p, 'w) loop_state" where
  "init_loop states =
     \<lparr>ls_states = states, ls_pending = [0..<length states], ls_calls = [],
      ls_watch_log = [], ls_raised = None\<rparr>"

definition mark_watched :: "nat \<Rightarrow> 'p run_state list \<Rightarrow> 'p run_state list" where
  "mark_watched i states = states[i := (states ! i)\<lparr>rs_watched := True\<rparr>]"

text \<open>
  One iteration of the loop. \<open>request\<close> is the text sent for a state: \<open>s.text\<close> in
  \<open>run_many\<close>, \<open>self.text + s.text\<close> in \<open>run_batch\<close>; the rest of the loop is the same
  text in both methods.
\<close>

definition run_round ::
  "'p env \<Rightarrow> ('p, 'w) pipeline \<Rightarrow> ('p run_state \<Rightarrow> string) \<Rightarrow> bool \<Rightarrow> bool
    \<Rightarrow> ('p, 'w) loop_state \<Rightarrow> ('p, 'w) loop_state" where
  "run_round E P request skip_failed include_failed ls =
     (let pending_states = map (\<lambda>i. ls_states ls ! i) (ls_pending ls);
          texts = map request pending_states;
          params = map rs_params pending_states;
          inbounds = generate_texts E (ls_calls ls) texts params;
          calls = ls_calls ls @ [(texts, params)]
      in case fan_in P skip_failed include_failed (zip inbounds (ls_pending ls)) (ls_states ls) of
           (states, Some e) \<Rightarrow>
             ls\<lparr>ls_states := states, ls_calls := calls, ls_raised := Some e\<rparr>
         | (states, None) \<Rightarrow>
             (let pending = filter (\<lambda>i. rs_completion (states ! i) = None) (ls_pending ls);
                  to_watch =
                    filter (\<lambda>i. rs_completion (states ! i) \<noteq> None \<and> \<not> rs_watched (states ! i))
                      [0..<length states];
                  completions =
                    map (\<lambda>i. the (rs_completion (states ! i)))
                      (filter (\<lambda>i. rs_completion (states ! i) \<noteq> None) to_watch)
              in ls\<lparr>ls_states := fold mark_watched to_watch states,
                    ls_pending := pending,
                    ls_calls := calls,
                    ls_watch_log := ls_watch_log ls @ watch_callback P completions\<rparr>))"

text \<open>
  The loop, with fuel: the backend may return fewer answers than it was asked, \<open>zip\<close> then
  leaves requests pending, and the source's loop need not end. \<open>None\<close> is a run that has
  not ended within \<open>fuel\<close> rounds.
\<close>

fun exec_loop ::
  "nat \<Rightarrow> 'p env \<Rightarrow> ('p, 'w) pipeline \<Rightarrow> ('p run_state \<Rightarrow> string) \<Rightarrow> bool \<Rightarrow> bool
    \<Rightarrow> ('p, 'w) loop_state \<Rightarrow> ('p, 'w) loop_state option" where
  "exec_loop 0 E P request skip_failed include_failed ls =
     (if ls_pending ls = [] then Some ls else None)"
| "exec_loop (Suc fuel) E P request skip_failed include_failed ls =
     (if ls_pending ls = [] then Some ls
      else
        let ls' = run_round E P request skip_failed include_failed ls
        in if ls_raised ls' \<noteq> None then Some ls'
           else exec_loop fuel E P request skip_failed include_failed ls')"

text \<open>
  The loop state after \<open>n\<close> iterations, or as the loop was left if it was left before:
  a point of an execution, whether or not the execution ends.
\<close>

fun rounds ::
  "nat \<Rightarrow> 'p env \<Rightarrow> ('p, 'w) pipeline \<Rightarrow> ('p run_state \<Rightarrow> string) \<Rightarrow> bool \<Rightarrow> bool
    \<Rightarrow> ('p, 'w) loop_state \<Rightarrow> ('p, 'w) loop_state" where
  "rounds 0 E P request skip_failed include_failed ls = ls"
| "rounds (Suc n) E P request skip_failed include_failed ls =
     (if ls_pending ls = [] \<or> ls_raised ls \<noteq> None then ls
      else rounds n E P request skip_failed include_failed
             (run_round E P request skip_failed include_failed ls))"

text \<open>The two list comprehensions after the loop.\<close>

definition collect :: "bool \<Rightarrow> 'p run_state list \<Rightarrow> 'p completion list" where
  "collect skip_failed states =
     (if skip_failed
      then map (\<lambda>s. the (rs_completion s))
             (filter (\<lambda>s. rs_completion s \<noteq> None \<and> \<not> c_failed (the (rs_completion s))) states)
      else map (\<lambda>s. the (rs_completion s)) (filter (\<lambda>s. rs_completion s \<noteq> None) states))"

text \<open>
  \<open>_post_run\<close>. In \<open>new or chat\<close> the replacement is taken when it is not \<open>None\<close> and is
  true in a Boolean context, which Python decides by \<open>Completion.__len__\<close>.
\<close>

definition apply_then :: "'p then_callback \<Rightarrow> 'p completion list \<Rightarrow> 'p completion list" where
  "apply_then then_callback completions =
     map (\<lambda>(new, chat). case new of
                           None \<Rightarrow> chat
                         | Some n \<Rightarrow> if truthy n then n else chat)
       (zip (map then_callback completions) completions)"

definition post_run :: "('p, 'w) pipeline \<Rightarrow> 'p completion list \<Rightarrow> 'p completion list" where
  "post_run P completions =
     fold apply_then (then_callbacks P)
       (fold (\<lambda>map_callback cs. map_callback cs) (map_callbacks P) completions)"

text \<open>
  What a run leaves: the returned list or the exception, the calls of the Watch
  callbacks and the calls of the backend.
\<close>

type_synonym ('p, 'w, 'r) run_result =
  "(error + 'r) \<times> ('w \<times> 'p completion list) list \<times> (string list \<times> 'p list) list"

definition finish ::
  "('p, 'w) pipeline \<Rightarrow> bool \<Rightarrow> ('p, 'w) loop_state \<Rightarrow> ('p, 'w, 'p completion list) run_result" where
  "finish P skip_failed ls =
     (case ls_raised ls of
        Some e \<Rightarrow> (Inl e, ls_watch_log ls, ls_calls ls)
      | None \<Rightarrow> (Inr (post_run P (collect skip_failed (ls_states ls))), ls_watch_log ls, ls_calls ls))"

text \<open>
  The part of \<open>run_many\<close> and \<open>run_batch\<close> from the priming of the generators to the end
  of the loop.
\<close>

definition execute ::
  "nat \<Rightarrow> 'p env \<Rightarrow> ('p, 'w) pipeline \<Rightarrow> ('p run_state \<Rightarrow> string) \<Rightarrow> bool \<Rightarrow> bool
    \<Rightarrow> 'p run_state list \<Rightarrow> (error + ('p, 'w) loop_state) option" where
  "execute fuel E P request skip_failed include_failed states =
     (case prime P states of
        Inl e \<Rightarrow> Some (Inl e)
      | Inr primed \<Rightarrow>
          map_option Inr (exec_loop fuel E P request skip_failed include_failed (init_loop primed)))"

text \<open>
  \<open>run_many\<close> and \<open>run_batch\<close> after the check of the flags, up to the end of the loop:
  the parameters are fitted, one state is made per request, the generators are primed
  and the loop runs. An exception raised before the loop leaves no trace.
\<close>

definition run_many_loop ::
  "nat \<Rightarrow> 'p env \<Rightarrow> ('p, 'w) pipeline \<Rightarrow> int \<Rightarrow> 'p option list option \<Rightarrow> bool \<Rightarrow> bool
    \<Rightarrow> (error + ('p, 'w) loop_state) option" where
  "run_many_loop fuel E P cnt params skip_failed include_failed =
     (case fit_params E P cnt params of
        Inl e \<Rightarrow> Some (Inl e)
      | Inr ps \<Rightarrow>
          execute fuel E P rs_text skip_failed include_failed
            (map (\<lambda>p. RunState (p_text P) p) ps))"

definition run_batch_loop ::
  "nat \<Rightarrow> 'p env \<Rightarrow> ('p, 'w) pipeline \<Rightarrow> string list \<Rightarrow> 'p option list option \<Rightarrow> bool \<Rightarrow> bool
    \<Rightarrow> (error + ('p, 'w) loop_state) option" where
  "run_batch_loop fuel E P many params skip_failed include_failed =
     (case fit_params E P (int (length many)) params of
        Inl e \<Rightarrow> Some (Inl e)
      | Inr ps \<Rightarrow>
          execute fuel E P (\<lambda>s. p_text P @ rs_text s) skip_failed include_failed
            (map (\<lambda>(m, p). RunState m p) (zip many ps)))"

text \<open>The loops of \<open>run_many\<close> and \<open>run_batch\<close> after \<open>n\<close> iterations.\<close>

definition run_many_rounds ::
  "nat \<Rightarrow> 'p env \<Rightarrow> ('p, 'w) pipeline \<Rightarrow> int \<Rightarrow> 'p option list option \<Rightarrow> bool \<Rightarrow> bool
    \<Rightarrow> error + ('p, 'w) loop_state" where
  "run_many_rounds n E P cnt params skip_failed include_failed =
     (case fit_params E P cnt params of
        Inl e \<Rightarrow> Inl e
      | Inr ps \<Rightarrow>
          (case prime P (map (\<lambda>p. RunState (p_text P) p) ps) of
             Inl e \<Rightarrow> Inl e
           | Inr primed \<Rightarrow>
               Inr (rounds n E P rs_text skip_failed include_failed (init_loop primed))))"

definition run_batch_rounds ::
  "nat \<Rightarrow> 'p env \<Rightarrow> ('p, 'w) pipeline \<Rightarrow> string list \<Rightarrow> 'p option list option \<Rightarrow> bool \<Rightarrow> bool
    \<Rightarrow> error + ('p, 'w) loop_state" where
  "run_batch_rounds n E P many params skip_failed include_failed =
     (case fit_params E P (int (length many)) params of
        Inl e \<Rightarrow> Inl e
      | Inr ps \<Rightarrow>
          (case prime P (map (\<lambda>(m, p). RunState m p) (zip many ps)) of
             Inl e \<Rightarrow> Inl e
           | Inr primed \<Rightarrow>
               Inr (rounds n E P (\<lambda>s. p_text P @ rs_text s) skip_failed include_failed
                      (init_loop primed))))"

definition conclude ::
  "('p, 'w) pipeline \<Rightarrow> bool \<Rightarrow> (error + ('p, 'w) loop_state) option
    \<Rightarrow> ('p, 'w, 'p completion list) run_result option" where
  "conclude P skip_failed r =
     (case r of
        None \<Rightarrow> None
      | Some (Inl e) \<Rightarrow> Some (Inl e, [], [])
      | Some (Inr ls) \<Rightarrow> Some (finish P skip_failed ls))"

definition run_many ::
  "nat \<Rightarrow> 'p env \<Rightarrow> ('p, 'w) pipeline \<Rightarrow> int \<Rightarrow> 'p option list option \<Rightarrow> bool \<Rightarrow> bool
    \<Rightarrow> ('p, 'w, 'p completion list) run_result option" where
  "run_many fuel E P cnt params skip_failed include_failed =
     (if skip_failed \<and> include_failed then Some (Inl ValueError_both_flags, [], [])
      else conclude P skip_failed
             (run_many_loop fuel E P cnt params skip_failed include_failed))"

definition run_batch ::
  "nat \<Rightarrow> 'p env \<Rightarrow> ('p, 'w) pipeline \<Rightarrow> string list \<Rightarrow> 'p option list option \<Rightarrow> bool \<Rightarrow> bool
    \<Rightarrow> ('p, 'w, 'p completion list) run_result option" where
  "run_batch fuel E P many params skip_failed include_failed =
     (if skip_failed \<and> include_failed then Some (Inl ValueError_both_flags, [], [])
      else conclude P skip_failed
             (run_batch_loop fuel E P many params skip_failed include_failed))"

text \<open>\<open>run\<close>: \<open>chats[0]\<close> of an empty list raises \<open>IndexError\<close>.\<close>

definition run ::
  "nat \<Rightarrow> 'p env \<Rightarrow> ('p, 'w) pipeline \<Rightarrow> bool \<Rightarrow> ('p, 'w, 'p completion) run_result option" where
  "run fuel E P allow_failed =
     (case run_many fuel E P 1 None False allow_failed of
        None \<Rightarrow> None
      | Some (Inl e, wlog, calls) \<Rightarrow> Some (Inl e, wlog, calls)
      | Some (Inr chats, wlog, calls) \<Rightarrow>
          (case chats of
             [] \<Rightarrow> Some (Inl IndexError, wlog, calls)
           | c # _ \<Rightarrow> Some (Inr c, wlog, calls)))"

section \<open>The callback registry: objects and their lists\<close>

text \<open>
  The builder methods mutate list objects that pipelines may share, and
  \<open>until_parsed_as\<close> compares bound methods, so this part keeps an explicit store.
  Pipeline objects and list objects live at addresses; \<open>next_ref\<close> is the first address
  not yet taken. A callable is known by its identity: a user callback by a number, the
  bound method \<open>_until_parse_callback\<close> by the address of the pipeline it is bound to
  (two bound methods of that function are equal exactly when they are bound to the same
  object). A model class passed to \<open>until_parsed_as\<close> is a number as well.
\<close>

type_synonym ref = nat

typedecl generate_params

datatype until_fn = UserUntil nat | ParseCallback ref

record pipeline_obj =
  o_text :: string
  o_params :: "generate_params option"
  o_metadata :: anydict
  o_until_callbacks :: ref
  o_until_types :: ref
  o_then_callbacks :: ref
  o_map_callbacks :: ref
  o_watch_callbacks :: ref

record heap =
  next_ref :: ref
  until_lists :: "ref \<Rightarrow> (until_fn \<times> bool \<times> int) list"
  type_lists :: "ref \<Rightarrow> nat list"
  callback_lists :: "ref \<Rightarrow> nat list"
  pipelines :: "ref \<Rightarrow> pipeline_obj"

definition alloc_until :: "(until_fn \<times> bool \<times> int) list \<Rightarrow> heap \<Rightarrow> ref \<times> heap" where
  "alloc_until l h =
     (next_ref h, h\<lparr>next_ref := Suc (next_ref h), until_lists := (until_lists h)(next_ref h := l)\<rparr>)"

definition alloc_types :: "nat list \<Rightarrow> heap \<Rightarrow> ref \<times> heap" where
  "alloc_types l h =
     (next_ref h, h\<lparr>next_ref := Suc (next_ref h), type_lists := (type_lists h)(next_ref h := l)\<rparr>)"

definition alloc_callbacks :: "nat list \<Rightarrow> heap \<Rightarrow> ref \<times> heap" where
  "alloc_callbacks l h =
     (next_ref h,
      h\<lparr>next_ref := Suc (next_ref h), callback_lists := (callback_lists h)(next_ref h := l)\<rparr>)"

text \<open>
  \<open>CompletionPipeline.__init__\<close>. The argument \<open>watch_callbacks\<close> (here \<open>watch_arg\<close>) is
  \<open>None\<close> or a reference to a list; \<open>watch_callbacks or []\<close> is that same list object
  unless it is empty.
\<close>

definition pipeline_init ::
  "string \<Rightarrow> generate_params option \<Rightarrow> ref option \<Rightarrow> heap \<Rightarrow> ref \<times> heap" where
  "pipeline_init txt params watch_arg h0 =
     (let self = next_ref h0;
          h1 = h0\<lparr>next_ref := Suc (next_ref h0)\<rparr>;
          (u, h2) = alloc_until [] h1;
          (t, h3) = alloc_types [] h2;
          (th, h4) = alloc_callbacks [] h3;
          (m, h5) = alloc_callbacks [] h4;
          (w, h6) = (case watch_arg of
                       None \<Rightarrow> alloc_callbacks [] h5
                     | Some r \<Rightarrow> if callback_lists h5 r = [] then alloc_callbacks [] h5
                                else (r, h5))
      in (self,
          h6\<lparr>pipelines := (pipelines h6)
                (self := \<lparr>o_text = txt, o_params = params, o_metadata = Map.empty,
                          o_until_callbacks = u, o_until_types = t, o_then_callbacks = th,
                          o_map_callbacks = m, o_watch_callbacks = w\<rparr>)\<rparr>))"

text \<open>\<open>watch\<close>, \<open>then\<close>, \<open>map\<close>, \<open>until\<close>: each appends to a list object of \<open>self\<close>.\<close>

definition watch_one :: "ref \<Rightarrow> bool \<Rightarrow> nat \<Rightarrow> heap \<Rightarrow> heap" where
  "watch_one self allow_duplicates callback h =
     (let w = o_watch_callbacks (pipelines h self)
      in if allow_duplicates \<or> callback \<notin> set (callback_lists h w)
         then h\<lparr>callback_lists := (callback_lists h)(w := callback_lists h w @ [callback])\<rparr>
         else h)"

definition watch :: "ref \<Rightarrow> nat list \<Rightarrow> bool \<Rightarrow> heap \<Rightarrow> heap" where
  "watch self callbacks allow_duplicates h = fold (watch_one self allow_duplicates) callbacks h"

definition then' :: "ref \<Rightarrow> nat \<Rightarrow> heap \<Rightarrow> heap" where
  "then' self callback h =
     (let l = o_then_callbacks (pipelines h self)
      in h\<lparr>callback_lists := (callback_lists h)(l := callback_lists h l @ [callback])\<rparr>)"

definition map' :: "ref \<Rightarrow> nat \<Rightarrow> heap \<Rightarrow> heap" where
  "map' self callback h =
     (let l = o_map_callbacks (pipelines h self)
      in h\<lparr>callback_lists := (callback_lists h)(l := callback_lists h l @ [callback])\<rparr>)"

definition until :: "ref \<Rightarrow> until_fn \<Rightarrow> bool \<Rightarrow> int \<Rightarrow> heap \<Rightarrow> heap" where
  "until self callback use_all_text max_rounds h =
     (let l = o_until_callbacks (pipelines h self)
      in h\<lparr>until_lists := (until_lists h)
              (l := until_lists h l @ [(callback, use_all_text, max_rounds)])\<rparr>)"

text \<open>
  \<open>until_parsed_as\<close>: \<open>self.until_types += types\<close> extends the list object in place; the
  parse callback is appended unless an entry of \<open>self.until_callbacks\<close> equals
  \<open>self._until_parse_callback\<close>.
\<close>

definition until_parsed_as :: "ref \<Rightarrow> nat list \<Rightarrow> bool \<Rightarrow> int \<Rightarrow> heap \<Rightarrow> heap" where
  "until_parsed_as self types use_all_text max_rounds h =
     (let t = o_until_types (pipelines h self);
          h1 = h\<lparr>type_lists := (type_lists h)(t := type_lists h t @ types)\<rparr>;
          l = o_until_callbacks (pipelines h1 self)
      in if find (\<lambda>c. fst c = ParseCallback self) (until_lists h1 l) = None
         then h1\<lparr>until_lists := (until_lists h1)
                  (l := until_lists h1 l @ [(ParseCallback self, use_all_text, max_rounds)])\<rparr>
         else h1)"

text \<open>
  \<open>clone\<close>: the constructor is given \<open>self.watch_callbacks\<close> itself; the other three
  callback lists and the list of types are copied unless \<open>only_text\<close> is set.
\<close>

definition clone :: "ref \<Rightarrow> bool \<Rightarrow> heap \<Rightarrow> ref \<times> heap" where
  "clone self only_text h0 =
     (let me = pipelines h0 self;
          (new, h1) = pipeline_init (o_text me) (o_params me) (Some (o_watch_callbacks me)) h0
      in if only_text then (new, h1)
         else
           let (u, h2) = alloc_until (until_lists h1 (o_until_callbacks me)) h1;
               (t, h3) = alloc_types (type_lists h2 (o_until_types me)) h2;
               (th, h4) = alloc_callbacks (callback_lists h3 (o_then_callbacks me)) h3;
               (m, h5) = alloc_callbacks (callback_lists h4 (o_map_callbacks me)) h4
           in (new,
               h5\<lparr>pipelines := (pipelines h5)
                     (new := (pipelines h5 new)
                        \<lparr>o_until_callbacks := u, o_until_types := t,
                         o_metadata := o_metadata me,
                         o_then_callbacks := th, o_map_callbacks := m\<rparr>)\<rparr>))"

text \<open>The four callback lists of a pipeline object, read through its references.\<close>

definition until_of :: "heap \<Rightarrow> ref \<Rightarrow> (until_fn \<times> bool \<times> int) list" where
  "until_of h p = until_lists h (o_until_callbacks (pipelines h p))"

definition types_of :: "heap \<Rightarrow> ref \<Rightarrow> nat list" where
  "types_of h p = type_lists h (o_until_types (pipelines h p))"

definition then_of :: "heap \<Rightarrow> ref \<Rightarrow> nat list" where
  "then_of h p = callback_lists h (o_then_callbacks (pipelines h p))"

definition map_of' :: "heap \<Rightarrow> ref \<Rightarrow> nat list" where
  "map_of' h p = callback_lists h (o_map_callbacks (pipelines h p))"

definition watch_of :: "heap \<Rightarrow> ref \<Rightarrow> nat list" where
  "watch_of h p = callback_lists h (o_watch_callbacks (pipelines h p))"

text \<open>The entries of an Until list that hold the structured-parse validator.\<close>

fun is_parse :: "until_fn \<times> bool \<times> int \<Rightarrow> bool" where
  "is_parse (ParseCallback r, a, m) = True"
| "is_parse (UserUntil n, a, m) = False"

definition parse_entries :: "heap \<Rightarrow> ref \<Rightarrow> (until_fn \<times> bool \<times> int) list" where
  "parse_entries h p = filter is_parse (until_of h p)"

text \<open>The store before any object is made.\<close>

definition empty_heap :: heap where
  "empty_heap =
     \<lparr>next_ref = 0, until_lists = (\<lambda>r. []), type_lists = (\<lambda>r. []),
      callback_lists = (\<lambda>r. []),
      pipelines = (\<lambda>r. \<lparr>o_text = [], o_params = None, o_metadata = Map.empty,
                         o_until_callbacks = 0, o_until_types = 0, o_then_callbacks = 0,
                         o_map_callbacks = 0, o_watch_callbacks = 0\<rparr>)\<rparr>"

text \<open>
  Notions used to state the properties of the registry. A pipeline object is valid in
  a store when it and its lists have been made; \<open>lists_of\<close> are its five lists;
  two pipelines are \<open>apart\<close> when the second's lists are not the first's Until, types,
  Then and Map lists, and \<open>watch_apart\<close> says the same of the first's Watch list;
  \<open>own_parse\<close> says that the parse entries of a pipeline's Until list are at most one,
  bound to the pipeline itself; \<open>parsed_calls\<close> is a sequence of \<open>until_parsed_as\<close>
  calls on one pipeline.
\<close>

definition valid :: "heap \<Rightarrow> ref \<Rightarrow> bool" where
  "valid h p =
     (p < next_ref h \<and>
      o_until_callbacks (pipelines h p) < next_ref h \<and>
      o_until_types (pipelines h p) < next_ref h \<and>
      o_then_callbacks (pipelines h p) < next_ref h \<and>
      o_map_callbacks (pipelines h p) < next_ref h \<and>
      o_watch_callbacks (pipelines h p) < next_ref h)"

definition lists_of ::
  "heap \<Rightarrow> ref \<Rightarrow> (until_fn \<times> bool \<times> int) list \<times> nat list \<times> nat list \<times> nat list \<times> nat list" where
  "lists_of h p = (until_of h p, types_of h p, then_of h p, map_of' h p, watch_of h p)"

definition apart :: "heap \<Rightarrow> ref \<Rightarrow> ref \<Rightarrow> bool" where
  "apart h c p =
     (o_until_callbacks (pipelines h c) \<noteq> o_until_callbacks (pipelines h p) \<and>
      o_until_types (pipelines h c) \<noteq> o_until_types (pipelines h p) \<and>
      o_then_callbacks (pipelines h c) \<notin>
        {o_then_callbacks (pipelines h p), o_map_callbacks (pipelines h p),
         o_watch_callbacks (pipelines h p)} \<and>
      o_map_callbacks (pipelines h c) \<notin>
        {o_then_callbacks (pipelines h p), o_map_callbacks (pipelines h p),
         o_watch_callbacks (pipelines h p)})"

definition watch_apart :: "heap \<Rightarrow> ref \<Rightarrow> ref \<Rightarrow> bool" where
  "watch_apart h c p =
     (o_watch_callbacks (pipelines h c) \<notin>
        {o_then_callbacks (pipelines h p), o_map_callbacks (pipelines h p),
         o_watch_callbacks (pipelines h p)})"

definition own_parse :: "heap \<Rightarrow> ref \<Rightarrow> bool" where
  "own_parse h p =
     (list_all (\<lambda>c. fst c = ParseCallback p) (parse_entries h p) \<and>
      length (parse_entries h p) \<le> 1)"

definition parsed_calls :: "ref \<Rightarrow> (nat list \<times> bool \<times> int) list \<Rightarrow> heap \<Rightarrow> heap" where
  "parsed_calls p calls h = fold (\<lambda>(ts, a, m). until_parsed_as p ts a m) calls h"

section \<open>Notions used to state the properties of a run\<close>

text \<open>
  The generator of a request has left through the exhausted path: Until callbacks are
  registered, the loop was left with \<open>should_retry\<close> set and the round counter at the
  ceiling.
\<close>

definition exhausted :: "('p, 'w) pipeline \<Rightarrow> processor \<Rightarrow> bool" where
  "exhausted P p =
     (until_callbacks P \<noteq> [] \<and> should_retry p \<and> \<not> current_round p < lowest_max_rounds P)"

text \<open>
  How the record of a request relates to the request's state: its text is the
  pipeline's text, its parameters are the request's, its generated text is the chunk
  the generator received last, and it is flagged failed exactly when the generator left
  through the exhausted path, which gives a record only under one of the two flags.
\<close>

definition produced ::
  "('p, 'w) pipeline \<Rightarrow> bool \<Rightarrow> bool \<Rightarrow> 'p run_state \<Rightarrow> 'p completion \<Rightarrow> bool" where
  "produced P skip_failed include_failed s c =
     (c_text c = p_text P \<and> c_params c = Some (rs_params s) \<and>
      generated (rs_processor s) = Some (c_generated c) \<and>
      c_failed c = exhausted P (rs_processor s) \<and>
      (c_failed c \<longrightarrow> skip_failed \<or> include_failed))"


text \<open>The lists a Watch callback was called with during a run, joined in call order.\<close>

definition deliveries :: "'w \<Rightarrow> ('w \<times> 'p completion list) list \<Rightarrow> 'p completion list" where
  "deliveries w wlog = concat (map snd (filter (\<lambda>call. fst call = w) wlog))"

text \<open>What holds of the loop's state each time the loop condition is evaluated.\<close>

definition loop_inv ::
  "('p, 'w) pipeline \<Rightarrow> bool \<Rightarrow> bool \<Rightarrow> ('p, 'w) loop_state \<Rightarrow> bool" where
  "loop_inv P skip_failed include_failed ls =
     (sorted_wrt (<) (ls_pending ls) \<and>
      (\<forall>i \<in> set (ls_pending ls).
         i < length (ls_states ls) \<and> rs_completion (ls_states ls ! i) = None) \<and>
      (\<forall>i < length (ls_states ls).
         i \<notin> set (ls_pending ls) \<longrightarrow> rs_completion (ls_states ls ! i) \<noteq> None) \<and>
      (\<forall>s \<in> set (ls_states ls).
         rs_watched s = (rs_completion s \<noteq> None) \<and>
         (\<forall>c. rs_completion s = Some c \<longrightarrow> produced P skip_failed include_failed s c)) \<and>
      (\<forall>w. mset (deliveries w (ls_watch_log ls)) =
            repeat_mset (count_list (watch_callbacks P) w)
              (mset (collect False (ls_states ls)))))"

section \<open>Concrete pipelines and backends\<close>

text \<open>Inputs at which the theorems below are evaluated.\<close>

definition always_retry :: until_callback where
  "always_retry t = True"

definition always_accept :: until_callback where
  "always_accept t = False"

definition retry_then_accept :: "(nat, nat) pipeline" where
  "retry_then_accept =
     \<lparr>p_text = ''seed'', p_params = None, p_metadata = Map.empty,
      until_callbacks = [(always_retry, False, 5), (always_accept, False, 5)],
      then_callbacks = [], map_callbacks = [], watch_callbacks = []\<rparr>"

definition ceiling_one :: "(nat, nat) pipeline" where
  "ceiling_one =
     \<lparr>p_text = ''seed'', p_params = None, p_metadata = Map.empty,
      until_callbacks = [(always_retry, False, 1), (always_accept, False, 3)],
      then_callbacks = [], map_callbacks = [], watch_callbacks = []\<rparr>"

text \<open>
  A validator that accepts the text \<open>ok\<close> only, and a backend that answers \<open>ok\<close> to the
  request \<open>a\<close> in the first round and to every request from the second round on, and
  \<open>bad\<close> otherwise.
\<close>

definition accept_ok :: until_callback where
  "accept_ok t = (t \<noteq> ''ok'')"

definition answer :: "string \<Rightarrow> generated_text" where
  "answer t = \<lparr>g_text = t, g_stop_reason = SR_stop, g_usage = None, g_extra = Map.empty\<rparr>"

definition slow_env :: "nat env" where
  "slow_env =
     \<lparr>generate_texts =
        (\<lambda>earlier texts params.
           map (\<lambda>t. answer (if t = ''a'' \<or> earlier \<noteq> [] then ''ok'' else ''bad'')) texts),
      merge_with = (\<lambda>own p. case p of None \<Rightarrow> own | Some q \<Rightarrow> q),
      GenerateParams = 0\<rparr>"

definition watched_pipeline :: "int \<Rightarrow> (nat, nat) pipeline" where
  "watched_pipeline max_rounds =
     \<lparr>p_text = [], p_params = None, p_metadata = Map.empty,
      until_callbacks = [(accept_ok, False, max_rounds)],
      then_callbacks = [], map_callbacks = [], watch_callbacks = [7]\<rparr>"

definition a_completion :: "string \<Rightarrow> string \<Rightarrow> nat \<Rightarrow> bool \<Rightarrow> nat completion" where
  "a_completion txt g p f =
     \<lparr>c_text = txt, c_generated = g, c_metadata = Map.empty, c_stop_reason = SR_stop,
      c_usage = None, c_extra = Map.empty, c_params = Some p, c_failed = f\<rparr>"

text \<open>
  Pipelines without Until callbacks and with one Then callback: the first flags every
  record as failed, the second replaces the text of every record.
\<close>

definition flag_failed :: "nat then_callback" where
  "flag_failed c = Some (c\<lparr>c_failed := True\<rparr>)"

definition flagging_pipeline :: "(nat, nat) pipeline" where
  "flagging_pipeline =
     \<lparr>p_text = ''s'', p_params = None, p_metadata = Map.empty, until_callbacks = [],
      then_callbacks = [flag_failed], map_callbacks = [], watch_callbacks = []\<rparr>"

definition retitle :: "nat then_callback" where
  "retitle c = Some (c\<lparr>c_text := ''t''\<rparr>)"

definition retitling_pipeline :: "(nat, nat) pipeline" where
  "retitling_pipeline =
     \<lparr>p_text = ''s'', p_params = None, p_metadata = Map.empty, until_callbacks = [],
      then_callbacks = [retitle], map_callbacks = [], watch_callbacks = []\<rparr>"

definition seeded_pipeline :: "(nat, nat) pipeline" where
  "seeded_pipeline =
     \<lparr>p_text = ''s'', p_params = None, p_metadata = Map.empty, until_callbacks = [],
      then_callbacks = [], map_callbacks = [], watch_callbacks = []\<rparr>"

text \<open>
  A Then callback that returns a record with empty text and empty generated text, one
  that appends to the generated text, and a pipeline with both, in this order.
\<close>

definition blank_then :: "nat then_callback" where
  "blank_then c = Some (a_completion [] [] 0 False)"

definition exclaim :: "nat then_callback" where
  "exclaim c = Some (c\<lparr>c_generated := c_generated c @ ''!''\<rparr>)"

definition blanking_pipeline :: "(nat, nat) pipeline" where
  "blanking_pipeline =
     \<lparr>p_text = ''s'', p_params = None, p_metadata = Map.empty, until_callbacks = [],
      then_callbacks = [blank_then, exclaim], map_callbacks = [], watch_callbacks = []\<rparr>"

section \<open>Properties of the retry generator\<close>

lemma run_until_callbacks_last:
  "cbs \<noteq> [] \<Longrightarrow>
   run_until_callbacks txt cbs gen sr =
     fst (last cbs) (if fst (snd (last cbs)) then txt @ gen else gen)"
proof (induction cbs arbitrary: sr)
  case Nil
  then show ?case by simp
next
  case (Cons c cbs)
  obtain f a m where c: "c = (f, a, m)" by (cases c) auto
  show ?case
  proof (cases "cbs = []")
    case True
    then show ?thesis by (simp add: c)
  next
    case False
    then show ?thesis using Cons.IH [OF False] by (simp add: c Let_def)
  qed
qed

lemma loop_head_round:
  "loop_head P p = (p', out) \<Longrightarrow>
     (out = Yielded \<longrightarrow>
        current_round p' = current_round p + 1 \<and> current_round p < lowest_max_rounds P)
   \<and> (out \<noteq> Yielded \<longrightarrow> current_round p' = current_round p)"
  by (auto simp: loop_head_def split: if_splits option.splits)

lemma proc_send_round:
  assumes "until_callbacks P \<noteq> []" "proc_send P p chunk = (p', out)"
  shows "(out = Yielded \<longrightarrow>
            current_round p' = current_round p + 1 \<and> current_round p < lowest_max_rounds P)
       \<and> (out \<noteq> Yielded \<longrightarrow> current_round p' = current_round p)"
  using assms(2)
    loop_head_round [of P "p\<lparr>generated := Some chunk,
      should_retry := run_until_callbacks (p_text P) (until_callbacks P) chunk (should_retry p)\<rparr>"
      p' out]
  by (simp add: proc_send_def assms(1))

lemma feed_consumed:
  "feed P p out chunks = (p', out', rest) \<Longrightarrow> until_callbacks P \<noteq> [] \<Longrightarrow>
   (out = Yielded \<longrightarrow> current_round p \<le> lowest_max_rounds P) \<Longrightarrow>
   int (length chunks) - int (length rest)
     \<le> (if out = Yielded then lowest_max_rounds P - current_round p + 1 else 0)"
proof (induction P p out chunks rule: feed.induct)
  case (1 P p chunk chunks)
  obtain p1 out1 where s: "proc_send P p chunk = (p1, out1)"
    by (cases "proc_send P p chunk")
  note r = proc_send_round [OF 1(3) s]
  have f: "feed P p1 out1 chunks = (p', out', rest)" using 1(2) s by simp
  have "out1 = Yielded \<longrightarrow> current_round p1 \<le> lowest_max_rounds P" using r by auto
  from 1(1) [OF s[symmetric] f 1(3) this] r 1(4)
  show ?case by (auto split: if_splits)
qed auto

text \<open>
  The first half of claim C2 holds: a request with at least one Until callback consumes
  at most \<open>lowest_max_rounds\<close> chunks (none when that minimum is not positive).
\<close>

lemma rounds_bounded:
  assumes "until_callbacks P \<noteq> []" "process P chunks = (p', out', rest)"
  shows "int (length chunks) - int (length rest) \<le> max 0 (lowest_max_rounds P)"
proof -
  obtain p out where n: "proc_next P = (p, out)" by (cases "proc_next P")
  have lh: "loop_head P new_processor = (p, out)"
    using n assms(1) by (simp add: proc_next_def)
  from loop_head_round [OF lh]
  have r: "out = Yielded \<longrightarrow> current_round p = 1 \<and> 0 < lowest_max_rounds P"
    by (simp add: new_processor_def)
  have f: "feed P p out chunks = (p', out', rest)"
    using assms(2) n by (simp add: process_def)
  from feed_consumed [OF f assms(1)] r show ?thesis by (auto split: if_splits)
qed

text \<open>
  What a round decides, for a pipeline with Until callbacks: only the verdict of the
  last registered callback counts.
\<close>

lemma proc_send_last_callback:
  assumes "until_callbacks P \<noteq> []"
  shows "proc_send P p chunk =
     loop_head P
       (p\<lparr>generated := Some chunk,
          should_retry :=
            fst (last (until_callbacks P))
              (if fst (snd (last (until_callbacks P))) then p_text P @ chunk else chunk)\<rparr>)"
  using assms by (simp add: proc_send_def run_until_callbacks_last)

text \<open>
  Claim C1 (the code departs from it). The claim: with two or more Until validators, a
  round ends in a retry whenever at least one validator returns "retry" for the chunk,
  and the machine finalizes only when every validator accepts. In the code each
  callback's result overwrites \<open>should_retry\<close>, so the last callback decides alone: with
  the callbacks \<open>always_retry\<close> then \<open>always_accept\<close>, the first demands a retry for the
  chunk \<open>x\<close> and the generator returns \<open>x\<close> in the first round.
\<close>

theorem C1_last_validator_decides:
  "always_retry ''x'' \<and>
   process retry_then_accept [''x''] =
     (\<lparr>current_round = 1, should_retry = False, generated = Some ''x''\<rparr>, Returned ''x'', [])"
  by (simp add: process_def proc_next_def proc_send_def loop_head_def lowest_max_rounds_def
      retry_then_accept_def always_retry_def always_accept_def new_processor_def)

text \<open>
  Claim C2 (the code departs from it, by the defect of C1). The claim: the rounds of a
  request never exceed the minimum of the max-rounds values, and reaching that ceiling
  while some validator still demands a retry puts the request in the exhausted state
  with the last chunk. The bound holds (\<open>rounds_bounded\<close>). At the ceiling the code
  raises only if the last callback demands the retry: in \<open>ceiling_one\<close> the ceiling is 1,
  the first callback demands a retry for \<open>x\<close> in round 1, and the generator returns \<open>x\<close>
  instead of raising \<open>CompletionExhaustedMaxRoundsError\<close>.
\<close>

theorem C2_ceiling_reached_not_exhausted:
  "lowest_max_rounds ceiling_one = 1 \<and> always_retry ''x'' \<and>
   process ceiling_one [''x''] =
     (\<lparr>current_round = 1, should_retry = False, generated = Some ''x''\<rparr>, Returned ''x'', [])"
  by (simp add: process_def proc_next_def proc_send_def loop_head_def lowest_max_rounds_def
      ceiling_one_def always_retry_def always_accept_def new_processor_def)

section \<open>Properties of the executor\<close>

lemma proc_send_generated:
  "proc_send P p chunk = (p', out) \<Longrightarrow> generated p' = Some chunk"
  by (auto simp: proc_send_def loop_head_def split: if_splits)

lemma proc_send_returned:
  "proc_send P p chunk = (p', Returned v) \<Longrightarrow> v = chunk \<and> \<not> exhausted P p'"
  by (auto simp: proc_send_def loop_head_def exhausted_def split: if_splits)

lemma proc_send_raised:
  "proc_send P p chunk = (p', Raised e) \<Longrightarrow>
     e = CompletionExhaustedMaxRoundsError (lowest_max_rounds P) chunk \<and> exhausted P p'"
  by (auto simp: proc_send_def loop_head_def exhausted_def split: if_splits)

lemma drive_frame:
  "drive P sk inc s inb = (s', e) \<Longrightarrow>
     rs_text s' = rs_text s \<and> rs_params s' = rs_params s \<and> rs_watched s' = rs_watched s"
  by (auto simp: drive_def split: prod.splits outcome.splits error.splits if_splits)

lemma drive_produced:
  assumes "drive P sk inc s inb = (s', e)" "rs_completion s = None" "rs_completion s' = Some c"
  shows "produced P sk inc s' c \<and> c_generated c = g_text inb \<and> e = None"
proof -
  obtain p out where ps: "proc_send P (rs_processor s) (g_text inb) = (p, out)"
    by (cases "proc_send P (rs_processor s) (g_text inb)")
  note g = proc_send_generated [OF ps]
  show ?thesis
  proof (cases out)
    case Yielded
    then show ?thesis using assms ps by (auto simp: drive_def)
  next
    case (Returned v)
    with ps proc_send_returned [of P "rs_processor s" "g_text inb" p v] g assms
    show ?thesis by (auto simp: drive_def produced_def new_completion_def)
  next
    case (Raised err)
    with ps proc_send_raised [of P "rs_processor s" "g_text inb" p err] g assms
    show ?thesis by (auto simp: drive_def produced_def new_completion_def split: if_splits)
  qed
qed

lemma fan_in_cases:
  "distinct (map snd zs) \<Longrightarrow> \<forall>z\<in>set zs. snd z < length st \<Longrightarrow>
   fan_in P sk inc zs st = (st', err) \<Longrightarrow>
   length st' = length st \<and>
   (\<forall>j<length st. st' ! j = st ! j \<or>
        (\<exists>inb e. (inb, j) \<in> set zs \<and> drive P sk inc (st ! j) inb = (st' ! j, e)))"
proof (induction zs arbitrary: st)
  case Nil
  then show ?case by simp
next
  case (Cons z zs)
  obtain inb i where z: "z = (inb, i)" by (cases z)
  obtain s1 e1 where d: "drive P sk inc (st ! i) inb = (s1, e1)"
    by (cases "drive P sk inc (st ! i) inb")
  have i: "i < length st" using Cons.prems(2) z by simp
  show ?case
  proof (cases e1)
    case (Some e)
    then have "st' = st[i := s1]" using Cons.prems(3) z d by simp
    then show ?thesis using i d z by (auto simp: nth_list_update)
  next
    case None
    then have f: "fan_in P sk inc zs (st[i := s1]) = (st', err)" using Cons.prems(3) z d by simp
    have dz: "distinct (map snd zs)" and ni: "i \<notin> snd ` set zs" using Cons.prems(1) z by auto
    have lt: "\<forall>z\<in>set zs. snd z < length (st[i := s1])" using Cons.prems(2) by simp
    note ih = Cons.IH [OF dz lt f]
    show ?thesis
    proof (intro conjI allI impI)
      show "length st' = length st" using ih by simp
    next
      fix j assume j: "j < length st"
      then have "st' ! j = st[i := s1] ! j \<or>
        (\<exists>inb e. (inb, j) \<in> set zs \<and> drive P sk inc (st[i := s1] ! j) inb = (st' ! j, e))"
        using ih by simp
      then show "st' ! j = st ! j \<or>
        (\<exists>inb e. (inb, j) \<in> set (z # zs) \<and> drive P sk inc (st ! j) inb = (st' ! j, e))"
      proof
        assume a: "st' ! j = st[i := s1] ! j"
        show ?thesis
        proof (cases "j = i")
          case True
          then show ?thesis using a d z i by auto
        next
          case False
          then show ?thesis using a by simp
        qed
      next
        assume "\<exists>inb e. (inb, j) \<in> set zs \<and> drive P sk inc (st[i := s1] ! j) inb = (st' ! j, e)"
        then obtain inb' e' where m: "(inb', j) \<in> set zs"
          and dr: "drive P sk inc (st[i := s1] ! j) inb' = (st' ! j, e')" by blast
        from m ni have "j \<noteq> i" by force
        then show ?thesis using m dr by auto
      qed
    qed
  qed
qed


lemma mark_watched_nth:
  "length (mark_watched i st) = length st \<and>
   (j < length st \<longrightarrow>
      mark_watched i st ! j = (if j = i then (st ! j)\<lparr>rs_watched := True\<rparr> else st ! j))"
  by (simp add: mark_watched_def nth_list_update)

lemma fold_mark_watched_nth:
  "length (fold mark_watched idxs st) = length st \<and>
   (j < length st \<longrightarrow>
      fold mark_watched idxs st ! j =
        (if j \<in> set idxs then (st ! j)\<lparr>rs_watched := True\<rparr> else st ! j))"
proof (induction idxs arbitrary: st)
  case Nil
  then show ?case by simp
next
  case (Cons i idxs)
  show ?case
    using Cons.IH [of "mark_watched i st"] mark_watched_nth [of i st j]
    by auto
qed

lemma map_filter_cong_nth:
  "length xs = length ys \<Longrightarrow>
   \<forall>i<length xs. (Q (xs ! i) = R (ys ! i)) \<and> (Q (xs ! i) \<longrightarrow> f (xs ! i) = g (ys ! i)) \<Longrightarrow>
   map f (filter Q xs) = map g (filter R ys)"
proof (induction xs ys rule: list_induct2)
  case Nil
  then show ?case by simp
next
  case (Cons x xs y ys)
  have hd: "Q x = R y" "Q x \<longrightarrow> f x = g y" using Cons.prems by auto
  have "\<forall>i<length xs. (Q (xs ! i) = R (ys ! i)) \<and> (Q (xs ! i) \<longrightarrow> f (xs ! i) = g (ys ! i))"
    using Cons.prems by auto
  from Cons.IH [OF this] hd show ?case by auto
qed

lemma map_filter_upt_nth:
  "map (\<lambda>i. g (xs ! i)) (filter (\<lambda>i. Q (xs ! i)) [0..<length xs]) = map g (filter Q xs)"
proof -
  have "map g (filter Q (map (nth xs) [0..<length xs])) =
        map (\<lambda>i. g (xs ! i)) (filter (\<lambda>i. Q (xs ! i)) [0..<length xs])"
    by (simp add: filter_map comp_def)
  then show ?thesis by (simp add: map_nth)
qed

lemma deliveries_append:
  "deliveries w (a @ b) = deliveries w a @ deliveries w b"
  by (simp add: deliveries_def)

lemma deliveries_watch_callback:
  "mset (deliveries w (watch_callback P cs)) =
     repeat_mset (count_list (watch_callbacks P) w) (mset cs)"
proof -
  have "mset (deliveries w (map (\<lambda>cb. (cb, cs)) ws)) = repeat_mset (count_list ws w) (mset cs)" for ws
    by (induction ws) (auto simp: deliveries_def)
  then show ?thesis by (simp add: watch_callback_def)
qed

lemma fan_in_pointwise:
  assumes inv: "loop_inv P sk inc ls"
    and f: "fan_in P sk inc (zip inbounds (ls_pending ls)) (ls_states ls) = (st1, err)"
  shows "length st1 = length (ls_states ls)"
    and "\<forall>j<length st1. rs_text (st1 ! j) = rs_text (ls_states ls ! j) \<and>
            rs_params (st1 ! j) = rs_params (ls_states ls ! j) \<and>
            rs_watched (st1 ! j) = rs_watched (ls_states ls ! j)"
    and "\<forall>j<length st1. rs_completion (ls_states ls ! j) \<noteq> None \<longrightarrow> st1 ! j = ls_states ls ! j"
    and "\<forall>j<length st1. \<forall>c. rs_completion (st1 ! j) = Some c \<longrightarrow> produced P sk inc (st1 ! j) c"
proof -
  let ?st = "ls_states ls" and ?zs = "zip inbounds (ls_pending ls)"
  have sw: "sorted_wrt (<) (ls_pending ls)"
    and pend: "\<forall>i \<in> set (ls_pending ls). i < length ?st \<and> rs_completion (?st ! i) = None"
    and old: "\<forall>s \<in> set ?st. \<forall>c. rs_completion s = Some c \<longrightarrow> produced P sk inc s c"
    using inv by (auto simp: loop_inv_def)
  have "distinct (ls_pending ls)" using sw by (simp add: strict_sorted_iff)
  then have d: "distinct (map snd ?zs)" by (simp add: map_snd_zip_take)
  have z: "\<forall>z\<in>set ?zs. snd z \<in> set (ls_pending ls)"
    by (auto dest: set_zip_rightD)
  then have lt: "\<forall>z\<in>set ?zs. snd z < length ?st" using pend by blast
  note c = fan_in_cases [OF d lt f]
  show len: "length st1 = length ?st" using c by simp
  have step: "st1 ! j = ?st ! j \<or>
      (j \<in> set (ls_pending ls) \<and> (\<exists>inb e. drive P sk inc (?st ! j) inb = (st1 ! j, e)))"
    if "j < length ?st" for j
    using c that z by fastforce
  show "\<forall>j<length st1. rs_text (st1 ! j) = rs_text (?st ! j) \<and>
            rs_params (st1 ! j) = rs_params (?st ! j) \<and>
            rs_watched (st1 ! j) = rs_watched (?st ! j)"
  proof (intro allI impI)
    fix j assume "j < length st1"
    with step [of j] len
    show "rs_text (st1 ! j) = rs_text (?st ! j) \<and>
            rs_params (st1 ! j) = rs_params (?st ! j) \<and>
            rs_watched (st1 ! j) = rs_watched (?st ! j)"
      by (auto dest: drive_frame)
  qed
  show "\<forall>j<length st1. rs_completion (?st ! j) \<noteq> None \<longrightarrow> st1 ! j = ?st ! j"
  proof (intro allI impI)
    fix j assume "j < length st1" "rs_completion (?st ! j) \<noteq> None"
    with step [of j] len pend show "st1 ! j = ?st ! j" by auto
  qed
  show "\<forall>j<length st1. \<forall>c. rs_completion (st1 ! j) = Some c \<longrightarrow> produced P sk inc (st1 ! j) c"
  proof (intro allI impI)
    fix j c assume j: "j < length st1" and c: "rs_completion (st1 ! j) = Some c"
    have "st1 ! j = ?st ! j \<or>
      (j \<in> set (ls_pending ls) \<and> (\<exists>inb e. drive P sk inc (?st ! j) inb = (st1 ! j, e)))"
      using step [of j] j len by simp
    then show "produced P sk inc (st1 ! j) c"
    proof
      assume eq: "st1 ! j = ?st ! j"
      have "?st ! j \<in> set ?st" using j len by simp
      with old c eq show ?thesis by auto
    next
      assume "j \<in> set (ls_pending ls) \<and> (\<exists>inb e. drive P sk inc (?st ! j) inb = (st1 ! j, e))"
      then obtain inb e where "rs_completion (?st ! j) = None"
        and "drive P sk inc (?st ! j) inb = (st1 ! j, e)" using pend by blast
      from drive_produced [OF this(2) this(1) c] show ?thesis by simp
    qed
  qed
qed

lemma run_round_raised:
  assumes f: "fan_in P sk inc (zip (generate_texts E (ls_calls ls)
                (map req (map (\<lambda>i. ls_states ls ! i) (ls_pending ls)))
                (map rs_params (map (\<lambda>i. ls_states ls ! i) (ls_pending ls))))
              (ls_pending ls)) (ls_states ls) = (st1, err)"
  shows "err = Some e \<Longrightarrow> run_round E P req sk inc ls =
           ls\<lparr>ls_states := st1,
              ls_calls := ls_calls ls @ [(map req (map (\<lambda>i. ls_states ls ! i) (ls_pending ls)),
                 map rs_params (map (\<lambda>i. ls_states ls ! i) (ls_pending ls)))],
              ls_raised := Some e\<rparr>"
    and "err = None \<Longrightarrow> run_round E P req sk inc ls =
           ls\<lparr>ls_states :=
                fold mark_watched
                  (filter (\<lambda>i. rs_completion (st1 ! i) \<noteq> None \<and> \<not> rs_watched (st1 ! i))
                     [0..<length st1]) st1,
              ls_pending := filter (\<lambda>i. rs_completion (st1 ! i) = None) (ls_pending ls),
              ls_calls := ls_calls ls @ [(map req (map (\<lambda>i. ls_states ls ! i) (ls_pending ls)),
                 map rs_params (map (\<lambda>i. ls_states ls ! i) (ls_pending ls)))],
              ls_watch_log := ls_watch_log ls @
                watch_callback P
                  (map (\<lambda>s. the (rs_completion s))
                     (filter (\<lambda>s. rs_completion s \<noteq> None \<and> \<not> rs_watched s) st1))\<rparr>"
proof -
  have m: "map (\<lambda>i. the (rs_completion (st1 ! i)))
         (filter (\<lambda>i. rs_completion (st1 ! i) \<noteq> None)
           (filter (\<lambda>i. rs_completion (st1 ! i) \<noteq> None \<and> \<not> rs_watched (st1 ! i))
              [0..<length st1]))
      = map (\<lambda>s. the (rs_completion s))
          (filter (\<lambda>s. rs_completion s \<noteq> None \<and> \<not> rs_watched s) st1)"
  proof -
    have "filter (\<lambda>i. rs_completion (st1 ! i) \<noteq> None)
           (filter (\<lambda>i. rs_completion (st1 ! i) \<noteq> None \<and> \<not> rs_watched (st1 ! i))
              [0..<length st1])
        = filter (\<lambda>i. rs_completion (st1 ! i) \<noteq> None \<and> \<not> rs_watched (st1 ! i))
              [0..<length st1]"
      by (simp add: conj_commute cong: conj_cong)
    then show ?thesis
      using map_filter_upt_nth [of "\<lambda>s. the (rs_completion s)" st1
          "\<lambda>s. rs_completion s \<noteq> None \<and> \<not> rs_watched s"]
      by simp
  qed
  show "err = Some e \<Longrightarrow> run_round E P req sk inc ls =
           ls\<lparr>ls_states := st1,
              ls_calls := ls_calls ls @ [(map req (map (\<lambda>i. ls_states ls ! i) (ls_pending ls)),
                 map rs_params (map (\<lambda>i. ls_states ls ! i) (ls_pending ls)))],
              ls_raised := Some e\<rparr>"
    using f by (simp add: run_round_def Let_def)
  show "err = None \<Longrightarrow> run_round E P req sk inc ls =
           ls\<lparr>ls_states :=
                fold mark_watched
                  (filter (\<lambda>i. rs_completion (st1 ! i) \<noteq> None \<and> \<not> rs_watched (st1 ! i))
                     [0..<length st1]) st1,
              ls_pending := filter (\<lambda>i. rs_completion (st1 ! i) = None) (ls_pending ls),
              ls_calls := ls_calls ls @ [(map req (map (\<lambda>i. ls_states ls ! i) (ls_pending ls)),
                 map rs_params (map (\<lambda>i. ls_states ls ! i) (ls_pending ls)))],
              ls_watch_log := ls_watch_log ls @
                watch_callback P
                  (map (\<lambda>s. the (rs_completion s))
                     (filter (\<lambda>s. rs_completion s \<noteq> None \<and> \<not> rs_watched s) st1))\<rparr>"
    using f m by (simp add: run_round_def Let_def)
qed

lemma marked_nth:
  fixes st1 :: "'p run_state list"
  defines "st2 \<equiv> fold mark_watched
                  (filter (\<lambda>i. rs_completion (st1 ! i) \<noteq> None \<and> \<not> rs_watched (st1 ! i))
                     [0..<length st1]) st1"
  shows "length st2 = length st1"
    and "j < length st1 \<Longrightarrow>
           st2 ! j = (if rs_completion (st1 ! j) \<noteq> None \<and> \<not> rs_watched (st1 ! j)
                      then (st1 ! j)\<lparr>rs_watched := True\<rparr> else st1 ! j)"
  using fold_mark_watched_nth [of
      "filter (\<lambda>i. rs_completion (st1 ! i) \<noteq> None \<and> \<not> rs_watched (st1 ! i)) [0..<length st1]"
      st1 j]
  by (auto simp: st2_def)

lemma collect_marked:
  fixes st1 :: "'p run_state list"
  shows "collect False (fold mark_watched
                  (filter (\<lambda>i. rs_completion (st1 ! i) \<noteq> None \<and> \<not> rs_watched (st1 ! i))
                     [0..<length st1]) st1) = collect False st1"
proof -
  let ?st2 = "fold mark_watched
                  (filter (\<lambda>i. rs_completion (st1 ! i) \<noteq> None \<and> \<not> rs_watched (st1 ! i))
                     [0..<length st1]) st1"
  have l: "length ?st2 = length st1" by (rule marked_nth(1))
  have "map (\<lambda>s. the (rs_completion s)) (filter (\<lambda>s. rs_completion s \<noteq> None) ?st2) =
        map (\<lambda>s. the (rs_completion s)) (filter (\<lambda>s. rs_completion s \<noteq> None) st1)"
  proof (rule map_filter_cong_nth [OF l], intro allI impI)
    fix i assume "i < length ?st2"
    then have i: "i < length st1" using l by simp
    show "((rs_completion (?st2 ! i) \<noteq> None) = (rs_completion (st1 ! i) \<noteq> None)) \<and>
          (rs_completion (?st2 ! i) \<noteq> None \<longrightarrow>
             the (rs_completion (?st2 ! i)) = the (rs_completion (st1 ! i)))"
      using marked_nth(2) [OF i] by auto
  qed
  then show ?thesis by (simp only: collect_def if_False)
qed

lemma mset_map_filter_split:
  "mset (map h (filter C xs)) =
     mset (map h (filter (\<lambda>s. C s \<and> W s) xs)) + mset (map h (filter (\<lambda>s. C s \<and> \<not> W s) xs))"
  by (induction xs) auto

lemma collect_round:
  assumes len: "length st1 = length st"
    and w: "\<forall>j<length st1. rs_watched (st1 ! j) = rs_watched (st ! j)"
    and keep: "\<forall>j<length st1. rs_completion (st ! j) \<noteq> None \<longrightarrow> st1 ! j = st ! j"
    and inv: "\<forall>s\<in>set st. rs_watched s = (rs_completion s \<noteq> None)"
  shows "mset (collect False st1) =
         mset (collect False st) +
         mset (map (\<lambda>s. the (rs_completion s))
                 (filter (\<lambda>s. rs_completion s \<noteq> None \<and> \<not> rs_watched s) st1))"
proof -
  let ?h = "\<lambda>s. the (rs_completion s)"
  let ?C = "\<lambda>s. rs_completion s \<noteq> None"
  have invn: "rs_watched (st ! j) = (rs_completion (st ! j) \<noteq> None)" if "j < length st" for j
    using inv that by simp
  have a: "map ?h (filter (\<lambda>s. ?C s \<and> rs_watched s) st1) = map ?h (filter ?C st)"
  proof (rule map_filter_cong_nth [OF len], intro allI impI)
    fix i assume i: "i < length st1"
    show "((?C (st1 ! i) \<and> rs_watched (st1 ! i)) = ?C (st ! i)) \<and>
          (?C (st1 ! i) \<and> rs_watched (st1 ! i) \<longrightarrow> ?h (st1 ! i) = ?h (st ! i))"
      using i len w keep invn [of i] by auto
  qed
  have "mset (map ?h (filter ?C st1)) =
        mset (map ?h (filter (\<lambda>s. ?C s \<and> rs_watched s) st1)) +
        mset (map ?h (filter (\<lambda>s. ?C s \<and> \<not> rs_watched s) st1))"
    by (rule mset_map_filter_split)
  then show ?thesis using a by (simp only: collect_def if_False)
qed

lemma map_eq_nth:
  "length xs = length ys \<Longrightarrow> (\<And>j. j < length ys \<Longrightarrow> f (xs ! j) = f (ys ! j)) \<Longrightarrow>
   map f xs = map f ys"
  by (simp add: list_eq_iff_nth_eq)

lemma run_round_frame:
  assumes inv: "loop_inv P sk inc ls"
  shows "length (ls_states (run_round E P req sk inc ls)) = length (ls_states ls) \<and>
         map rs_text (ls_states (run_round E P req sk inc ls)) = map rs_text (ls_states ls) \<and>
         map rs_params (ls_states (run_round E P req sk inc ls)) = map rs_params (ls_states ls)"
proof -
  let ?inb = "generate_texts E (ls_calls ls)
                (map req (map (\<lambda>i. ls_states ls ! i) (ls_pending ls)))
                (map rs_params (map (\<lambda>i. ls_states ls ! i) (ls_pending ls)))"
  obtain st1 err where f: "fan_in P sk inc (zip ?inb (ls_pending ls)) (ls_states ls) = (st1, err)"
    by (cases "fan_in P sk inc (zip ?inb (ls_pending ls)) (ls_states ls)")
  note pw = fan_in_pointwise [OF inv f]
  have st1: "length st1 = length (ls_states ls) \<and> map rs_text st1 = map rs_text (ls_states ls) \<and>
      map rs_params st1 = map rs_params (ls_states ls)"
    using pw(1,2) by (auto intro!: nth_equalityI)
  show ?thesis
  proof (cases err)
    case (Some e)
    then show ?thesis using run_round_raised(1) [OF f Some] st1 by simp
  next
    case None
    let ?st2 = "fold mark_watched
                  (filter (\<lambda>i. rs_completion (st1 ! i) \<noteq> None \<and> \<not> rs_watched (st1 ! i))
                     [0..<length st1]) st1"
    have l: "length ?st2 = length st1" by (rule marked_nth(1))
    have t: "rs_text (?st2 ! j) = rs_text (st1 ! j)" if "j < length st1" for j
      unfolding marked_nth(2) [OF that] by simp
    have p: "rs_params (?st2 ! j) = rs_params (st1 ! j)" if "j < length st1" for j
      unfolding marked_nth(2) [OF that] by simp
    have "map rs_text ?st2 = map rs_text st1" "map rs_params ?st2 = map rs_params st1"
      by (rule map_eq_nth [OF l t], assumption) (rule map_eq_nth [OF l p], assumption)
    then have "length ?st2 = length st1 \<and> map rs_text ?st2 = map rs_text st1 \<and>
      map rs_params ?st2 = map rs_params st1"
      using l by blast
    then show ?thesis using run_round_raised(2) [OF f None] st1 by simp
  qed
qed

lemma produced_watched:
  "produced P sk inc (s\<lparr>rs_watched := b\<rparr>) c = produced P sk inc s c"
  by (simp add: produced_def)

lemma run_round_inv:
  assumes inv: "loop_inv P sk inc ls"
    and nr: "ls_raised (run_round E P req sk inc ls) = None"
  shows "loop_inv P sk inc (run_round E P req sk inc ls)"
proof -
  let ?inb = "generate_texts E (ls_calls ls)
                (map req (map (\<lambda>i. ls_states ls ! i) (ls_pending ls)))
                (map rs_params (map (\<lambda>i. ls_states ls ! i) (ls_pending ls)))"
  let ?st = "ls_states ls"
  obtain st1 err where f: "fan_in P sk inc (zip ?inb (ls_pending ls)) ?st = (st1, err)"
    by (cases "fan_in P sk inc (zip ?inb (ls_pending ls)) ?st")
  note pw = fan_in_pointwise [OF inv f]
  have err: "err = None"
  proof (cases err)
    case (Some e)
    then show ?thesis using run_round_raised(1) [OF f Some] nr by simp
  qed
  let ?st2 = "fold mark_watched
                  (filter (\<lambda>i. rs_completion (st1 ! i) \<noteq> None \<and> \<not> rs_watched (st1 ! i))
                     [0..<length st1]) st1"
  let ?pend = "filter (\<lambda>i. rs_completion (st1 ! i) = None) (ls_pending ls)"
  let ?new = "map (\<lambda>s. the (rs_completion s))
                     (filter (\<lambda>s. rs_completion s \<noteq> None \<and> \<not> rs_watched s) st1)"
  note rr = run_round_raised(2) [OF f err]
  have sw: "sorted_wrt (<) (ls_pending ls)"
    and pend: "\<forall>i \<in> set (ls_pending ls). i < length ?st \<and> rs_completion (?st ! i) = None"
    and fin: "\<forall>i < length ?st. i \<notin> set (ls_pending ls) \<longrightarrow> rs_completion (?st ! i) \<noteq> None"
    and old: "\<forall>s \<in> set ?st. rs_watched s = (rs_completion s \<noteq> None)"
    and wl: "\<forall>w. mset (deliveries w (ls_watch_log ls)) =
            repeat_mset (count_list (watch_callbacks P) w) (mset (collect False ?st))"
    using inv by (auto simp: loop_inv_def)
  have oldn: "rs_watched (?st ! j) = (rs_completion (?st ! j) \<noteq> None)" if "j < length ?st" for j
    using old that by simp
  have l2: "length ?st2 = length ?st" using marked_nth(1) [of st1] pw(1) by (rule trans)
  have n2: "?st2 ! j = (if rs_completion (st1 ! j) \<noteq> None \<and> \<not> rs_watched (st1 ! j)
                      then (st1 ! j)\<lparr>rs_watched := True\<rparr> else st1 ! j)"
    if "j < length ?st" for j
  proof -
    from that pw(1) have "j < length st1" by simp
    then show ?thesis by (rule marked_nth(2))
  qed
  have c2: "rs_completion (?st2 ! j) = rs_completion (st1 ! j)" if "j < length ?st" for j
    using n2 [OF that] by simp
  have i1: "sorted_wrt (<) ?pend" using sw by (rule sorted_wrt_filter)
  have i2: "\<forall>i \<in> set ?pend. i < length ?st2 \<and> rs_completion (?st2 ! i) = None"
    using pend l2 c2 by auto
  have i3: "\<forall>i < length ?st2. i \<notin> set ?pend \<longrightarrow> rs_completion (?st2 ! i) \<noteq> None"
  proof (intro allI impI)
    fix i assume i: "i < length ?st2" and np: "i \<notin> set ?pend"
    then have il: "i < length ?st" using l2 by simp
    show "rs_completion (?st2 ! i) \<noteq> None"
    proof (cases "i \<in> set (ls_pending ls)")
      case True
      then show ?thesis using np c2 [OF il] by simp
    next
      case False
      then have "rs_completion (?st ! i) \<noteq> None" using fin il by simp
      then show ?thesis using pw(1,3) il c2 [OF il] by simp
    qed
  qed
  have i4: "\<forall>s \<in> set ?st2. rs_watched s = (rs_completion s \<noteq> None) \<and>
         (\<forall>c. rs_completion s = Some c \<longrightarrow> produced P sk inc s c)"
  proof
    fix s assume "s \<in> set ?st2"
    then obtain j where j: "j < length ?st" and s: "s = ?st2 ! j"
      using l2 by (auto simp: in_set_conv_nth)
    have w1: "rs_watched (st1 ! j) = rs_watched (?st ! j)" using pw(1,2) j by simp
    have k1: "rs_completion (?st ! j) \<noteq> None \<longrightarrow> st1 ! j = ?st ! j" using pw(1,3) j by simp
    have p1: "\<forall>c. rs_completion (st1 ! j) = Some c \<longrightarrow> produced P sk inc (st1 ! j) c"
      using pw(1,4) j by simp
    have a: "rs_watched s = (rs_completion s \<noteq> None)"
      using n2 [OF j] s w1 k1 oldn [OF j] by auto
    have b: "\<forall>c. rs_completion s = Some c \<longrightarrow> produced P sk inc s c"
      using n2 [OF j] s p1 by (auto simp: produced_watched)
    from a b show "rs_watched s = (rs_completion s \<noteq> None) \<and>
         (\<forall>c. rs_completion s = Some c \<longrightarrow> produced P sk inc s c)" ..
  qed
  have m: "mset (collect False ?st2) = mset (collect False ?st) + mset ?new"
    using collect_round [OF pw(1) _ pw(3) old] pw(2) by (simp only: collect_marked) simp
  have i5: "\<forall>w. mset (deliveries w (ls_watch_log ls @ watch_callback P ?new)) =
            repeat_mset (count_list (watch_callbacks P) w) (mset (collect False ?st2))"
    using wl m by (simp add: deliveries_append deliveries_watch_callback repeat_mset_distrib2)
  let ?ls' = "ls\<lparr>ls_states := ?st2, ls_pending := ?pend,
              ls_calls := ls_calls ls @ [(map req (map (\<lambda>i. ls_states ls ! i) (ls_pending ls)),
                 map rs_params (map (\<lambda>i. ls_states ls ! i) (ls_pending ls)))],
              ls_watch_log := ls_watch_log ls @ watch_callback P ?new\<rparr>"
  have sel: "ls_states ?ls' = ?st2" "ls_pending ?ls' = ?pend"
    "ls_watch_log ?ls' = ls_watch_log ls @ watch_callback P ?new"
    by simp_all
  have "loop_inv P sk inc ?ls'"
    unfolding loop_inv_def sel by (intro conjI i1 i2 i3 i4 i5)
  then show ?thesis by (simp only: rr)
qed

lemma pending_eq:
  assumes "loop_inv P sk inc ls"
  shows "ls_pending ls =
     filter (\<lambda>i. rs_completion (ls_states ls ! i) = None) [0..<length (ls_states ls)]"
proof (rule sorted_distinct_set_unique)
  show "sorted (ls_pending ls)" "distinct (ls_pending ls)"
    using assms by (simp_all add: loop_inv_def strict_sorted_iff)
  show "sorted (filter (\<lambda>i. rs_completion (ls_states ls ! i) = None) [0..<length (ls_states ls)])"
    by (simp add: sorted_wrt_filter)
  show "distinct (filter (\<lambda>i. rs_completion (ls_states ls ! i) = None) [0..<length (ls_states ls)])"
    by simp
  show "set (ls_pending ls) =
     set (filter (\<lambda>i. rs_completion (ls_states ls ! i) = None) [0..<length (ls_states ls)])"
    using assms by (auto simp: loop_inv_def)
qed

lemma round_texts:
  assumes "loop_inv P sk inc ls"
  shows "subseq (map (\<lambda>s. f (rs_text s)) (map (\<lambda>i. ls_states ls ! i) (ls_pending ls)))
           (map f (map rs_text (ls_states ls)))"
proof -
  have "map (\<lambda>i. ls_states ls ! i) (ls_pending ls) =
        filter (\<lambda>s. rs_completion s = None) (ls_states ls)"
    using map_filter_upt_nth [of "\<lambda>s. s" "ls_states ls" "\<lambda>s. rs_completion s = None"]
    by (simp add: pending_eq [OF assms])
  moreover have "subseq (map (\<lambda>s. f (rs_text s)) (filter (\<lambda>s. rs_completion s = None) (ls_states ls)))
          (map (\<lambda>s. f (rs_text s)) (ls_states ls))"
    by (rule subseq_map) simp
  ultimately show ?thesis by (simp add: comp_def)
qed

lemma run_round_calls:
  "ls_calls (run_round E P req sk inc ls) =
     ls_calls ls @ [(map req (map (\<lambda>i. ls_states ls ! i) (ls_pending ls)),
                     map rs_params (map (\<lambda>i. ls_states ls ! i) (ls_pending ls)))]"
proof -
  let ?inb = "generate_texts E (ls_calls ls)
                (map req (map (\<lambda>i. ls_states ls ! i) (ls_pending ls)))
                (map rs_params (map (\<lambda>i. ls_states ls ! i) (ls_pending ls)))"
  obtain st1 err where f: "fan_in P sk inc (zip ?inb (ls_pending ls)) (ls_states ls) = (st1, err)"
    by (cases "fan_in P sk inc (zip ?inb (ls_pending ls)) (ls_states ls)")
  show ?thesis
  proof (cases err)
    case None
    show ?thesis unfolding run_round_raised(2) [OF f None] by simp
  next
    case (Some e)
    show ?thesis unfolding run_round_raised(1) [OF f Some] by simp
  qed
qed

lemma rounds_stop:
  "ls_pending ls = [] \<or> ls_raised ls \<noteq> None \<Longrightarrow> rounds n E P req sk inc ls = ls"
  by (cases n) auto

lemma exec_loop_rounds:
  "exec_loop fuel E P req sk inc ls = Some ls' \<Longrightarrow> ls_raised ls = None \<Longrightarrow>
   rounds fuel E P req sk inc ls = ls'"
proof (induction fuel arbitrary: ls)
  case 0
  then show ?case by (auto split: if_splits)
next
  case (Suc fuel)
  show ?case
  proof (cases "ls_pending ls = []")
    case True
    then show ?thesis using Suc.prems by auto
  next
    case False
    let ?ls1 = "run_round E P req sk inc ls"
    show ?thesis
    proof (cases "ls_raised ?ls1 = None")
      case True
      then have "exec_loop fuel E P req sk inc ?ls1 = Some ls'"
        using Suc.prems(1) False by (simp add: Let_def)
      from Suc.IH [OF this True] show ?thesis using False Suc.prems(2) by simp
    next
      case False2: False
      then have "ls' = ?ls1" using Suc.prems(1) False by (auto simp: Let_def)
      then show ?thesis using False Suc.prems(2) False2 by (simp add: rounds_stop)
    qed
  qed
qed

lemma rounds_inv:
  "loop_inv P sk inc ls0 \<Longrightarrow> ls_raised ls0 = None \<Longrightarrow>
     length (ls_states (rounds n E P req sk inc ls0)) = length (ls_states ls0) \<and>
     map rs_text (ls_states (rounds n E P req sk inc ls0)) = map rs_text (ls_states ls0) \<and>
     map rs_params (ls_states (rounds n E P req sk inc ls0)) = map rs_params (ls_states ls0) \<and>
     (ls_raised (rounds n E P req sk inc ls0) = None \<longrightarrow>
        loop_inv P sk inc (rounds n E P req sk inc ls0))"
proof (induction n arbitrary: ls0)
  case 0
  then show ?case by simp
next
  case (Suc n)
  show ?case
  proof (cases "ls_pending ls0 = []")
    case True
    then show ?thesis using Suc.prems by simp
  next
    case False
    let ?ls1 = "run_round E P req sk inc ls0"
    note fr = run_round_frame [OF Suc.prems(1), of E req]
    have r: "rounds (Suc n) E P req sk inc ls0 = rounds n E P req sk inc ?ls1"
      using False Suc.prems(2) by simp
    show ?thesis
    proof (cases "ls_raised ?ls1 = None")
      case True
      from Suc.IH [OF run_round_inv [OF Suc.prems(1) True] True] fr
      show ?thesis unfolding r by simp
    next
      case False2: False
      then have "rounds n E P req sk inc ?ls1 = ?ls1" by (simp add: rounds_stop)
      then show ?thesis unfolding r using fr False2 by auto
    qed
  qed
qed

lemma exec_loop_ends:
  "exec_loop fuel E P req sk inc ls = Some ls' \<Longrightarrow>
     ls_pending ls' = [] \<or> ls_raised ls' \<noteq> None"
proof (induction fuel arbitrary: ls)
  case 0
  then show ?case by (auto split: if_splits)
next
  case (Suc fuel)
  then show ?case by (auto simp: Let_def split: if_splits)
qed

lemma rounds_calls:
  "loop_inv P sk inc ls0 \<Longrightarrow> ls_raised ls0 = None \<Longrightarrow>
   \<forall>call\<in>set (ls_calls ls0). subseq (fst call) (map f (map rs_text (ls_states ls0))) \<Longrightarrow>
   \<forall>call\<in>set (ls_calls (rounds n E P (\<lambda>s. f (rs_text s)) sk inc ls0)).
      subseq (fst call) (map f (map rs_text (ls_states ls0)))"
proof (induction n arbitrary: ls0)
  case 0
  then show ?case by simp
next
  case (Suc n)
  show ?case
  proof (cases "ls_pending ls0 = []")
    case True
    then show ?thesis using Suc.prems by simp
  next
    case False
    let ?ls1 = "run_round E P (\<lambda>s. f (rs_text s)) sk inc ls0"
    note fr = run_round_frame [OF Suc.prems(1), of E "\<lambda>s. f (rs_text s)"]
    have r: "rounds (Suc n) E P (\<lambda>s. f (rs_text s)) sk inc ls0 =
             rounds n E P (\<lambda>s. f (rs_text s)) sk inc ?ls1"
      using False Suc.prems(2) by simp
    have c: "\<forall>call\<in>set (ls_calls ?ls1). subseq (fst call) (map f (map rs_text (ls_states ls0)))"
      using Suc.prems(3) round_texts [OF Suc.prems(1), of f]
      by (auto simp: run_round_calls)
    show ?thesis
    proof (cases "ls_raised ?ls1 = None")
      case True
      from Suc.IH [OF run_round_inv [OF Suc.prems(1) True] True] c fr
      show ?thesis unfolding r by simp
    next
      case False2: False
      then have "rounds n E P (\<lambda>s. f (rs_text s)) sk inc ?ls1 = ?ls1" by (simp add: rounds_stop)
      then show ?thesis unfolding r using c by simp
    qed
  qed
qed

lemma rounds_calls_prefix:
  "prefix (ls_calls ls0) (ls_calls (rounds n E P req sk inc ls0))"
proof (induction n arbitrary: ls0)
  case 0
  then show ?case by simp
next
  case (Suc n)
  have "prefix (ls_calls ls0) (ls_calls (run_round E P req sk inc ls0))"
    by (simp add: run_round_calls)
  with Suc.IH [of "run_round E P req sk inc ls0"] show ?case
    by (auto intro: prefix_order.trans)
qed

lemma rounds_first_call:
  assumes "ls_calls (rounds n E P req sk inc (init_loop states)) \<noteq> []"
  shows "fst (hd (ls_calls (rounds n E P req sk inc (init_loop states)))) = map req states"
proof -
  let ?i = "init_loop states :: ('a, 'b) loop_state"
  have nc: "ls_calls ?i = []" and nr: "ls_raised ?i = None" by (simp_all add: init_loop_def)
  obtain m where n: "n = Suc m" using assms nc by (cases n) auto
  have pe: "ls_pending ?i \<noteq> []" using assms nc n by auto
  let ?ls1 = "run_round E P req sk inc ?i"
  have mm: "map (\<lambda>i. states ! i) [0..<length states] = states" by (rule map_nth)
  have c: "ls_calls ?ls1 = [(map req states, map rs_params states)]"
    unfolding run_round_calls by (simp add: init_loop_def mm del: map_map)
  have "rounds n E P req sk inc ?i = rounds m E P req sk inc ?ls1" using n pe nr by simp
  moreover have "prefix (ls_calls ?ls1) (ls_calls (rounds m E P req sk inc ?ls1))"
    by (rule rounds_calls_prefix)
  ultimately show ?thesis using c by (auto simp: prefix_def)
qed

lemma exec_loop_inv:
  "loop_inv P sk inc ls0 \<Longrightarrow> exec_loop fuel E P req sk inc ls0 = Some ls \<Longrightarrow>
   ls_raised ls0 = None \<Longrightarrow>
     length (ls_states ls) = length (ls_states ls0) \<and>
     map rs_text (ls_states ls) = map rs_text (ls_states ls0) \<and>
     map rs_params (ls_states ls) = map rs_params (ls_states ls0) \<and>
     (ls_raised ls = None \<longrightarrow> loop_inv P sk inc ls \<and> ls_pending ls = [])"
proof (induction fuel arbitrary: ls0)
  case 0
  then show ?case by (auto split: if_splits)
next
  case (Suc fuel)
  show ?case
  proof (cases "ls_pending ls0 = []")
    case True
    then show ?thesis using Suc.prems by auto
  next
    case False
    let ?ls' = "run_round E P req sk inc ls0"
    note fr = run_round_frame [OF Suc.prems(1), of E req]
    show ?thesis
    proof (cases "ls_raised ?ls' = None")
      case True
      then have e: "exec_loop fuel E P req sk inc ?ls' = Some ls"
        using Suc.prems(2) False by (simp add: Let_def)
      from Suc.IH [OF run_round_inv [OF Suc.prems(1) True] e True] fr
      show ?thesis by simp
    next
      case False2: False
      then have "ls = ?ls'" using Suc.prems(2) False by (simp add: Let_def)
      then show ?thesis using fr False2 by auto
    qed
  qed
qed

lemma prime_ok:
  "prime P ss = Inr primed \<Longrightarrow>
     length primed = length ss \<and> map rs_text primed = map rs_text ss \<and>
     map rs_params primed = map rs_params ss \<and>
     map rs_completion primed = map rs_completion ss \<and>
     map rs_watched primed = map rs_watched ss"
proof (induction ss arbitrary: primed)
  case Nil
  then show ?case by simp
next
  case (Cons s ss)
  then show ?case
    by (auto split: prod.splits outcome.splits sum.splits)
qed

lemma init_loop_inv:
  assumes "\<forall>s\<in>set states. rs_completion s = None \<and> \<not> rs_watched s"
  shows "loop_inv P sk inc (init_loop states)"
  using assms
  by (auto simp: loop_inv_def init_loop_def collect_def deliveries_def filter_empty_conv
      sorted_wrt_upt strict_sorted_iff)

lemma fit_params_length:
  "fit_params E P cnt params = Inr ps \<Longrightarrow> int (length ps) = cnt"
  by (auto simp: fit_params_def Let_def split: if_splits option.splits)

lemma primed_inv:
  assumes pr: "prime P states0 = Inr primed"
    and fresh: "\<forall>s\<in>set states0. rs_completion s = None \<and> \<not> rs_watched s"
  shows "loop_inv P sk inc (init_loop primed)"
proof -
  note po = prime_ok [OF pr]
  have "\<forall>s\<in>set primed. rs_completion s = None \<and> \<not> rs_watched s"
  proof
    fix s assume "s \<in> set primed"
    then obtain j where j: "j < length primed" "s = primed ! j" by (auto simp: in_set_conv_nth)
    have "rs_completion (primed ! j) = rs_completion (states0 ! j)"
      using po j(1) by (metis nth_map)
    moreover have "rs_watched (primed ! j) = rs_watched (states0 ! j)"
      using po j(1) by (metis nth_map)
    ultimately show "rs_completion s = None \<and> \<not> rs_watched s"
      using fresh j po by simp
  qed
  then show ?thesis by (rule init_loop_inv)
qed

lemma execute_facts:
  assumes ex: "execute fuel E P req sk inc states0 = Some (Inr ls)"
    and fresh: "\<forall>s\<in>set states0. rs_completion s = None \<and> \<not> rs_watched s"
  shows "length (ls_states ls) = length states0 \<and>
     map rs_text (ls_states ls) = map rs_text states0 \<and>
     map rs_params (ls_states ls) = map rs_params states0 \<and>
     (ls_raised ls = None \<longrightarrow> loop_inv P sk inc ls \<and> ls_pending ls = [])"
proof -
  from ex obtain primed where pr: "prime P states0 = Inr primed"
    and lp: "exec_loop fuel E P req sk inc (init_loop primed) = Some ls"
    by (auto simp: execute_def split: sum.splits)
  note po = prime_ok [OF pr]
  note inv = primed_inv [OF pr fresh, of sk inc]
  have nr: "ls_raised (init_loop primed :: ('a, 'b) loop_state) = None" by (simp add: init_loop_def)
  have st: "ls_states (init_loop primed :: ('a, 'b) loop_state) = primed" by (simp add: init_loop_def)
  from exec_loop_inv [OF inv lp nr] po show ?thesis by (simp add: st)
qed

lemma run_batch_loop_facts:
  assumes "run_batch_loop fuel E P many params sk inc = Some (Inr ls)"
  shows "length (ls_states ls) = length many \<and> map rs_text (ls_states ls) = many \<and>
     (ls_raised ls = None \<longrightarrow> loop_inv P sk inc ls \<and> ls_pending ls = [])"
proof -
  from assms obtain ps where fp: "fit_params E P (int (length many)) params = Inr ps"
    and ex: "execute fuel E P (\<lambda>s. p_text P @ rs_text s) sk inc
               (map (\<lambda>(m, p). RunState m p) (zip many ps)) = Some (Inr ls)"
    by (auto simp: run_batch_loop_def split: sum.splits)
  have l: "length ps = length many" using fit_params_length [OF fp] by simp
  have fresh: "\<forall>s\<in>set (map (\<lambda>(m, p). RunState m p) (zip many ps)).
      rs_completion s = None \<and> \<not> rs_watched s"
    by (auto simp: RunState_def)
  have t: "map rs_text (map (\<lambda>(m, p). RunState m p) (zip many ps)) = many"
    using l by (induction many ps rule: list_induct2') (auto simp: RunState_def)
  from execute_facts [OF ex fresh] t l show ?thesis by simp
qed

lemma run_many_loop_facts:
  assumes "run_many_loop fuel E P cnt params sk inc = Some (Inr ls)"
  shows "int (length (ls_states ls)) = cnt \<and>
     (ls_raised ls = None \<longrightarrow> loop_inv P sk inc ls \<and> ls_pending ls = [])"
proof -
  from assms obtain ps where fp: "fit_params E P cnt params = Inr ps"
    and ex: "execute fuel E P rs_text sk inc (map (\<lambda>p. RunState (p_text P) p) ps) = Some (Inr ls)"
    by (auto simp: run_many_loop_def split: sum.splits)
  have fresh: "\<forall>s\<in>set (map (\<lambda>p. RunState (p_text P) p) ps).
      rs_completion s = None \<and> \<not> rs_watched s"
    by (auto simp: RunState_def)
  from execute_facts [OF ex fresh] fit_params_length [OF fp] show ?thesis by simp
qed

lemma conclude_returns:
  assumes "conclude P sk r = Some (Inr out, wlog, calls)"
  shows "\<exists>ls. r = Some (Inr ls) \<and> ls_raised ls = None \<and>
           out = post_run P (collect sk (ls_states ls)) \<and>
           wlog = ls_watch_log ls \<and> calls = ls_calls ls"
  using assms
  by (auto simp: conclude_def finish_def split: option.splits sum.splits)

lemma run_batch_returns:
  assumes "run_batch fuel E P many params sk inc = Some (Inr out, wlog, calls)"
  shows "\<exists>ls. run_batch_loop fuel E P many params sk inc = Some (Inr ls) \<and> ls_raised ls = None \<and>
           out = post_run P (collect sk (ls_states ls)) \<and>
           wlog = ls_watch_log ls \<and> calls = ls_calls ls"
  using assms conclude_returns [of P sk "run_batch_loop fuel E P many params sk inc" out wlog calls]
  by (simp add: run_batch_def split: if_splits)

lemma run_many_returns:
  assumes "run_many fuel E P cnt params sk inc = Some (Inr out, wlog, calls)"
  shows "\<exists>ls. run_many_loop fuel E P cnt params sk inc = Some (Inr ls) \<and> ls_raised ls = None \<and>
           out = post_run P (collect sk (ls_states ls)) \<and>
           wlog = ls_watch_log ls \<and> calls = ls_calls ls"
  using assms conclude_returns [of P sk "run_many_loop fuel E P cnt params sk inc" out wlog calls]
  by (simp add: run_many_def split: if_splits)

lemma all_completed:
  assumes "loop_inv P sk inc ls" "ls_pending ls = []"
  shows "\<forall>s\<in>set (ls_states ls). rs_completion s \<noteq> None"
  using assms by (auto simp: loop_inv_def in_set_conv_nth)


lemma collect_skip:
  "collect True st = filter (\<lambda>c. \<not> c_failed c) (collect False st)"
  by (simp add: collect_def filter_map comp_def conj_commute del: not_None_eq)




lemma exec_loop_calls:
  "loop_inv P sk inc ls0 \<Longrightarrow> ls_raised ls0 = None \<Longrightarrow>
   exec_loop fuel E P (\<lambda>s. f (rs_text s)) sk inc ls0 = Some ls \<Longrightarrow>
   \<forall>call\<in>set (ls_calls ls0). subseq (fst call) (map f (map rs_text (ls_states ls0))) \<Longrightarrow>
   \<forall>call\<in>set (ls_calls ls). subseq (fst call) (map f (map rs_text (ls_states ls0)))"
proof (induction fuel arbitrary: ls0)
  case 0
  then show ?case by (auto split: if_splits)
next
  case (Suc fuel)
  show ?case
  proof (cases "ls_pending ls0 = []")
    case True
    then show ?thesis using Suc.prems by auto
  next
    case False
    let ?ls' = "run_round E P (\<lambda>s. f (rs_text s)) sk inc ls0"
    note fr = run_round_frame [OF Suc.prems(1), of E "\<lambda>s. f (rs_text s)"]
    have c: "\<forall>call\<in>set (ls_calls ?ls'). subseq (fst call) (map f (map rs_text (ls_states ls0)))"
      using Suc.prems(4) round_texts [OF Suc.prems(1), of f]
      by (auto simp: run_round_calls)
    show ?thesis
    proof (cases "ls_raised ?ls' = None")
      case True
      then have e: "exec_loop fuel E P (\<lambda>s. f (rs_text s)) sk inc ?ls' = Some ls"
        using Suc.prems(3) False by (simp add: Let_def)
      from Suc.IH [OF run_round_inv [OF Suc.prems(1) True] True e] c fr
      show ?thesis by simp
    next
      case False2: False
      then have "ls = ?ls'" using Suc.prems(3) False by (simp add: Let_def)
      then show ?thesis using c by simp
    qed
  qed
qed

lemma exec_loop_calls_prefix:
  "exec_loop fuel E P req sk inc ls0 = Some ls \<Longrightarrow> prefix (ls_calls ls0) (ls_calls ls)"
proof (induction fuel arbitrary: ls0)
  case 0
  then show ?case by (auto split: if_splits)
next
  case (Suc fuel)
  show ?case
  proof (cases "ls_pending ls0 = []")
    case True
    then show ?thesis using Suc.prems by auto
  next
    case False
    let ?ls' = "run_round E P req sk inc ls0"
    have p: "prefix (ls_calls ls0) (ls_calls ?ls')" by (simp add: run_round_calls)
    show ?thesis
    proof (cases "ls_raised ?ls' = None")
      case True
      then have e: "exec_loop fuel E P req sk inc ?ls' = Some ls"
        using Suc.prems False by (simp add: Let_def)
      from Suc.IH [OF e] p show ?thesis by (rule prefix_order.trans [rotated])
    next
      case False2: False
      then have "ls = ?ls'" using Suc.prems False by (simp add: Let_def)
      then show ?thesis using p by simp
    qed
  qed
qed

lemma exec_loop_first_call:
  assumes "exec_loop fuel E P req sk inc (init_loop states) = Some ls" "states \<noteq> []"
  shows "ls_calls ls \<noteq> [] \<and> fst (hd (ls_calls ls)) = map req states"
proof -
  let ?i = "init_loop states :: ('a, 'b) loop_state"
  have pe: "ls_pending ?i \<noteq> []" using assms(2) by (simp add: init_loop_def)
  obtain n where fuel: "fuel = Suc n" using assms(1) pe by (cases fuel) auto
  let ?ls' = "run_round E P req sk inc ?i"
  have m: "map (\<lambda>i. states ! i) [0..<length states] = states" by (rule map_nth)
  have c: "ls_calls ?ls' = [(map req states, map rs_params states)]"
    unfolding run_round_calls by (simp add: init_loop_def m del: map_map)
  have "prefix (ls_calls ?ls') (ls_calls ls)"
  proof (cases "ls_raised ?ls' = None")
    case True
    then have "exec_loop n E P req sk inc ?ls' = Some ls"
      using assms(1) pe fuel by (simp add: Let_def)
    then show ?thesis by (rule exec_loop_calls_prefix)
  next
    case False
    then have "ls = ?ls'" using assms(1) pe fuel by (simp add: Let_def)
    then show ?thesis by simp
  qed
  then show ?thesis using c by (auto simp: prefix_def)
qed

lemma batch_states_text:
  "length ps = length many \<Longrightarrow> map rs_text (map (\<lambda>(m, p). RunState m p) (zip many ps)) = many"
  by (induction many ps rule: list_induct2') (auto simp: RunState_def)

lemma run_batch_loop_calls:
  assumes "run_batch_loop fuel E P many params sk inc = Some (Inr ls)"
  shows "(\<forall>call\<in>set (ls_calls ls). subseq (fst call) (map (\<lambda>m. p_text P @ m) many)) \<and>
         (many \<noteq> [] \<longrightarrow> ls_calls ls \<noteq> [] \<and> fst (hd (ls_calls ls)) = map (\<lambda>m. p_text P @ m) many)"
proof -
  let ?states0 = "\<lambda>ps. map (\<lambda>(m, p). RunState m p) (zip many ps)"
  from assms obtain ps primed where fp: "fit_params E P (int (length many)) params = Inr ps"
    and pr: "prime P (?states0 ps) = Inr primed"
    and lp: "exec_loop fuel E P (\<lambda>s. p_text P @ rs_text s) sk inc (init_loop primed) = Some ls"
    by (auto simp: run_batch_loop_def execute_def split: sum.splits)
  have l: "length ps = length many" using fit_params_length [OF fp] by simp
  have fresh: "\<forall>s\<in>set (?states0 ps). rs_completion s = None \<and> \<not> rs_watched s"
    by (auto simp: RunState_def)
  note inv = primed_inv [OF pr fresh, of sk inc]
  have tx: "map rs_text primed = many"
    using prime_ok [OF pr] batch_states_text [OF l] by simp
  have st: "ls_states (init_loop primed :: ('a, 'b) loop_state) = primed"
    and nr: "ls_raised (init_loop primed :: ('a, 'b) loop_state) = None"
    and nc: "ls_calls (init_loop primed :: ('a, 'b) loop_state) = []"
    by (simp_all add: init_loop_def)
  have a: "\<forall>call\<in>set (ls_calls ls). subseq (fst call) (map (\<lambda>m. p_text P @ m) many)"
    using exec_loop_calls [OF inv nr, of fuel E "\<lambda>m. p_text P @ m" ls] lp
    by (simp add: st nc tx)
  have b: "ls_calls ls \<noteq> [] \<and> fst (hd (ls_calls ls)) = map (\<lambda>m. p_text P @ m) many"
    if "many \<noteq> []"
  proof -
    have "primed \<noteq> []" using tx that by auto
    from exec_loop_first_call [OF lp this]
    have "ls_calls ls \<noteq> [] \<and> fst (hd (ls_calls ls)) = map (\<lambda>s. p_text P @ rs_text s) primed" .
    moreover have "map (\<lambda>s. p_text P @ rs_text s) primed = map (\<lambda>m. p_text P @ m) (map rs_text primed)"
      by (simp add: comp_def)
    ultimately show ?thesis by (simp add: tx)
  qed
  from a b show ?thesis by blast
qed

lemma produced_all:
  assumes "loop_inv P sk inc ls"
  shows "\<forall>s\<in>set (ls_states ls). \<forall>c. rs_completion s = Some c \<longrightarrow> produced P sk inc s c"
  using assms by (simp add: loop_inv_def)

lemma collect_subset:
  "c \<in> set (collect sk st) \<Longrightarrow> \<exists>s\<in>set st. rs_completion s = Some c"
  by (auto simp: collect_def split: if_splits)

lemma run_batch_rounds_facts:
  assumes "run_batch_rounds n E P many params sk inc = Inr ls"
  shows "length (ls_states ls) = length many \<and> map rs_text (ls_states ls) = many \<and>
     (ls_raised ls = None \<longrightarrow> loop_inv P sk inc ls) \<and>
     (\<forall>call\<in>set (ls_calls ls). subseq (fst call) (map (\<lambda>m. p_text P @ m) many)) \<and>
     (ls_calls ls \<noteq> [] \<longrightarrow> fst (hd (ls_calls ls)) = map (\<lambda>m. p_text P @ m) many)"
proof -
  let ?states0 = "\<lambda>ps. map (\<lambda>(m, p). RunState m p) (zip many ps)"
  let ?req = "\<lambda>s. p_text P @ rs_text s"
  from assms obtain ps primed where fp: "fit_params E P (int (length many)) params = Inr ps"
    and pr: "prime P (?states0 ps) = Inr primed"
    and ls: "ls = rounds n E P ?req sk inc (init_loop primed)"
    by (auto simp: run_batch_rounds_def split: sum.splits)
  have l: "length ps = length many" using fit_params_length [OF fp] by simp
  have fresh: "\<forall>s\<in>set (?states0 ps). rs_completion s = None \<and> \<not> rs_watched s"
    by (auto simp: RunState_def)
  note inv = primed_inv [OF pr fresh, of sk inc]
  have tx: "map rs_text primed = many"
    using prime_ok [OF pr] batch_states_text [OF l] by simp
  have st: "ls_states (init_loop primed :: ('a, 'b) loop_state) = primed"
    and nr: "ls_raised (init_loop primed :: ('a, 'b) loop_state) = None"
    and nc: "ls_calls (init_loop primed :: ('a, 'b) loop_state) = []"
    by (simp_all add: init_loop_def)
  note ri = rounds_inv [OF inv nr, of n E ?req]
  have a: "\<forall>call\<in>set (ls_calls ls). subseq (fst call) (map (\<lambda>m. p_text P @ m) many)"
    using rounds_calls [OF inv nr, of "\<lambda>m. p_text P @ m" n E] ls
    by (simp add: st nc tx)
  have b: "fst (hd (ls_calls ls)) = map (\<lambda>m. p_text P @ m) many" if "ls_calls ls \<noteq> []"
  proof -
    have "fst (hd (ls_calls ls)) = map ?req primed"
      using rounds_first_call [of n E P ?req sk inc primed] that ls by simp
    moreover have "map ?req primed = map (\<lambda>m. p_text P @ m) (map rs_text primed)"
      by (simp add: comp_def)
    ultimately show ?thesis by (simp add: tx)
  qed
  have t: "map rs_text (ls_states ls) = many" using ri by (simp add: ls st tx)
  have len: "length (ls_states ls) = length many" using t by (metis length_map)
  have i: "ls_raised ls = None \<longrightarrow> loop_inv P sk inc ls" using ri by (simp add: ls)
  from t len i a b show ?thesis by blast
qed

lemma run_many_rounds_facts:
  assumes "run_many_rounds n E P cnt params sk inc = Inr ls"
  shows "int (length (ls_states ls)) = cnt \<and> (ls_raised ls = None \<longrightarrow> loop_inv P sk inc ls)"
proof -
  let ?states0 = "\<lambda>ps. map (\<lambda>p. RunState (p_text P) p) ps"
  from assms obtain ps primed where fp: "fit_params E P cnt params = Inr ps"
    and pr: "prime P (?states0 ps) = Inr primed"
    and ls: "ls = rounds n E P rs_text sk inc (init_loop primed)"
    by (auto simp: run_many_rounds_def split: sum.splits)
  have fresh: "\<forall>s\<in>set (?states0 ps). rs_completion s = None \<and> \<not> rs_watched s"
    by (auto simp: RunState_def)
  note inv = primed_inv [OF pr fresh, of sk inc]
  have st: "ls_states (init_loop primed :: ('a, 'b) loop_state) = primed"
    and nr: "ls_raised (init_loop primed :: ('a, 'b) loop_state) = None"
    by (simp_all add: init_loop_def)
  from rounds_inv [OF inv nr, of n E rs_text] prime_ok [OF pr] fit_params_length [OF fp]
  show ?thesis by (simp add: ls st)
qed

lemma run_batch_loop_rounds:
  assumes "run_batch_loop fuel E P many params sk inc = Some (Inr ls)"
  shows "run_batch_rounds fuel E P many params sk inc = Inr ls"
proof -
  from assms obtain ps primed where fp: "fit_params E P (int (length many)) params = Inr ps"
    and pr: "prime P (map (\<lambda>(m, p). RunState m p) (zip many ps)) = Inr primed"
    and lp: "exec_loop fuel E P (\<lambda>s. p_text P @ rs_text s) sk inc (init_loop primed) = Some ls"
    by (auto simp: run_batch_loop_def execute_def split: sum.splits)
  have nr: "ls_raised (init_loop primed :: ('a, 'b) loop_state) = None" by (simp add: init_loop_def)
  from exec_loop_rounds [OF lp nr] fp pr show ?thesis by (simp add: run_batch_rounds_def)
qed

lemma run_many_loop_rounds:
  assumes "run_many_loop fuel E P cnt params sk inc = Some (Inr ls)"
  shows "run_many_rounds fuel E P cnt params sk inc = Inr ls"
proof -
  from assms obtain ps primed where fp: "fit_params E P cnt params = Inr ps"
    and pr: "prime P (map (\<lambda>p. RunState (p_text P) p) ps) = Inr primed"
    and lp: "exec_loop fuel E P rs_text sk inc (init_loop primed) = Some ls"
    by (auto simp: run_many_loop_def execute_def split: sum.splits)
  have nr: "ls_raised (init_loop primed :: ('a, 'b) loop_state) = None" by (simp add: init_loop_def)
  from exec_loop_rounds [OF lp nr] fp pr show ?thesis by (simp add: run_many_rounds_def)
qed

lemma watched_so_far:
  assumes "loop_inv P sk inc ls"
  shows "list_all (\<lambda>s. rs_watched s = (rs_completion s \<noteq> None)) (ls_states ls) \<and>
      (\<forall>w. mset (deliveries w (ls_watch_log ls)) =
            repeat_mset (count_list (watch_callbacks P) w) (mset (collect False (ls_states ls))))"
  using assms by (simp add: loop_inv_def list_all_iff del: not_None_eq)

section \<open>Evaluating runs\<close>

lemmas run_defs = run_batch_def run_many_def run_batch_loop_def run_many_loop_def
    fit_params_def conclude_def execute_def
    proc_next_def loop_head_def new_processor_def lowest_max_rounds_def RunState_def init_loop_def
    run_round_def drive_def proc_send_def new_completion_def
    watch_callback_def mark_watched_def finish_def collect_def post_run_def apply_then_def
    truthy_def completion_len_def Let_def

lemmas example_defs = slow_env_def watched_pipeline_def accept_ok_def answer_def a_completion_def
    eval_nat_numeral


lemma batch_with_failure:
  "run_batch 5 slow_env (watched_pipeline 1) [''a'', ''b''] None False True =
   Some (Inr [a_completion [] ''ok'' 0 False, a_completion [] ''bad'' 0 True],
         [(7, [a_completion [] ''ok'' 0 False, a_completion [] ''bad'' 0 True])],
         [([''a'', ''b''], [0, 0])])"
  by (simp add: run_defs example_defs)

lemma many_with_failure:
  "run_many 5 slow_env (watched_pipeline 1) 2 None False True =
   Some (Inr [a_completion [] ''bad'' 0 True, a_completion [] ''bad'' 0 True],
         [(7, [a_completion [] ''bad'' 0 True, a_completion [] ''bad'' 0 True])],
         [([[], []], [0, 0])])"
  by (simp add: run_defs example_defs)

lemma run_with_failure:
  "run 5 slow_env (watched_pipeline 1) True =
   Some (Inr (a_completion [] ''bad'' 0 True),
         [(7, [a_completion [] ''bad'' 0 True])], [([[]], [0])])"
  by (simp add: run_def run_defs example_defs)

lemma seeded_batch:
  "run_batch 5 slow_env seeded_pipeline [''a'', ''b''] None False False =
   Some (Inr [a_completion ''s'' ''bad'' 0 False, a_completion ''s'' ''bad'' 0 False],
         [], [([''sa'', ''sb''], [0, 0])])"
  by (simp add: run_defs example_defs seeded_pipeline_def)

lemma batch_two_rounds:
  "run_batch 5 slow_env (watched_pipeline 2) [''b'', ''a'', ''c''] None False True =
   Some (Inr [a_completion [] ''ok'' 0 False, a_completion [] ''ok'' 0 False,
              a_completion [] ''ok'' 0 False],
         [(7, [a_completion [] ''ok'' 0 False]),
          (7, [a_completion [] ''ok'' 0 False, a_completion [] ''ok'' 0 False])],
         [([''b'', ''a'', ''c''], [0, 0, 0]), ([''b'', ''c''], [0, 0])])"
  by (simp add: run_defs example_defs)

lemma many_two_rounds:
  "run_many 5 slow_env (watched_pipeline 2) 2 None False True =
   Some (Inr [a_completion [] ''ok'' 0 False, a_completion [] ''ok'' 0 False],
         [(7, []), (7, [a_completion [] ''ok'' 0 False, a_completion [] ''ok'' 0 False])],
         [([[], []], [0, 0]), ([[], []], [0, 0])])"
  by (simp add: run_defs example_defs)

lemma batch_after_one_round:
  "\<exists>ls. run_batch_rounds 1 slow_env (watched_pipeline 2) [''b'', ''a'', ''c''] None False True
          = Inr ls \<and> ls_raised ls = None \<and> ls_pending ls = [0, 2]"
  by (simp add: run_batch_rounds_def run_defs example_defs)

lemma many_after_one_round:
  "\<exists>ls. run_many_rounds 1 slow_env (watched_pipeline 2) 2 None False True = Inr ls \<and>
        ls_raised ls = None \<and> ls_pending ls = [0, 1]"
  by (simp add: run_many_rounds_def run_defs example_defs)

lemma seeded_after_one_round:
  "\<exists>ls. run_batch_rounds 1 slow_env seeded_pipeline [''a'', ''b''] None False False = Inr ls \<and>
        ls_calls ls = [([''sa'', ''sb''], [0, 0])]"
  by (simp add: run_batch_rounds_def run_defs example_defs seeded_pipeline_def)

section \<open>The claims about runs\<close>




text \<open>
  Claim C4, as amended. The claim: in every \<open>run_many\<close> or \<open>run_batch\<close> execution each
  record that finalizes (or exhausts into a failed record) is delivered to the
  registered Watch callbacks exactly once. It fails in an execution that raises: the
  records made in the round in which a sibling request exhausts are never delivered
  (the counterexample below). Amended: in every execution, after any number of rounds of
  the loop and as long as no exception has left it, a request is marked as watched
  exactly when it has its record, and the records made so far have been delivered
  exactly once to each registration of a Watch callback: for every Watch callback, what
  it was called with so far is, as a multiset, the records made so far, repeated as
  many times as the callback is registered. An execution that returns is such an
  execution, taken at its last round, in which every request has its record.
\<close>

theorem C4_watch_once_per_record:
  "(run_batch_rounds n E P many params sk inc = Inr ls \<and> ls_raised ls = None \<longrightarrow>
      list_all (\<lambda>s. rs_watched s = (rs_completion s \<noteq> None)) (ls_states ls) \<and>
      (\<forall>w. mset (deliveries w (ls_watch_log ls)) =
            repeat_mset (count_list (watch_callbacks P) w)
              (mset (collect False (ls_states ls))))) \<and>
   (run_many_rounds n E P cnt params sk inc = Inr ls' \<and> ls_raised ls' = None \<longrightarrow>
      list_all (\<lambda>s. rs_watched s = (rs_completion s \<noteq> None)) (ls_states ls') \<and>
      (\<forall>w. mset (deliveries w (ls_watch_log ls')) =
            repeat_mset (count_list (watch_callbacks P) w)
              (mset (collect False (ls_states ls'))))) \<and>
   (run_batch fuel E P many params sk inc = Some (Inr out, wlog, calls) \<longrightarrow>
      (\<exists>fin. run_batch_rounds fuel E P many params sk inc = Inr fin \<and> ls_raised fin = None \<and>
         wlog = ls_watch_log fin \<and> out = post_run P (collect sk (ls_states fin)) \<and>
         length (ls_states fin) = length many \<and>
         list_all (\<lambda>s. rs_completion s \<noteq> None) (ls_states fin))) \<and>
   (run_many fuel E P cnt params sk inc = Some (Inr out', wlog', calls') \<longrightarrow>
      (\<exists>fin. run_many_rounds fuel E P cnt params sk inc = Inr fin \<and> ls_raised fin = None \<and>
         wlog' = ls_watch_log fin \<and> out' = post_run P (collect sk (ls_states fin)) \<and>
         int (length (ls_states fin)) = cnt \<and>
         list_all (\<lambda>s. rs_completion s \<noteq> None) (ls_states fin)))"
proof (intro conjI impI)
  assume a: "run_batch_rounds n E P many params sk inc = Inr ls \<and> ls_raised ls = None"
  then have "loop_inv P sk inc ls" using run_batch_rounds_facts [of n E P many params sk inc ls] by simp
  from watched_so_far [OF this]
  show "list_all (\<lambda>s. rs_watched s = (rs_completion s \<noteq> None)) (ls_states ls)"
    and "\<forall>w. mset (deliveries w (ls_watch_log ls)) =
            repeat_mset (count_list (watch_callbacks P) w) (mset (collect False (ls_states ls)))"
    by simp_all
next
  assume a: "run_many_rounds n E P cnt params sk inc = Inr ls' \<and> ls_raised ls' = None"
  then have "loop_inv P sk inc ls'" using run_many_rounds_facts [of n E P cnt params sk inc ls'] by simp
  from watched_so_far [OF this]
  show "list_all (\<lambda>s. rs_watched s = (rs_completion s \<noteq> None)) (ls_states ls')"
    and "\<forall>w. mset (deliveries w (ls_watch_log ls')) =
            repeat_mset (count_list (watch_callbacks P) w) (mset (collect False (ls_states ls')))"
    by simp_all
next
  assume "run_batch fuel E P many params sk inc = Some (Inr out, wlog, calls)"
  from run_batch_returns [OF this] obtain ls
    where lp: "run_batch_loop fuel E P many params sk inc = Some (Inr ls)"
      and nr: "ls_raised ls = None"
      and out: "out = post_run P (collect sk (ls_states ls))"
      and wl: "wlog = ls_watch_log ls" by blast
  from run_batch_loop_facts [OF lp] nr
  have len: "length (ls_states ls) = length many"
    and inv: "loop_inv P sk inc ls" and pe: "ls_pending ls = []" by simp_all
  have "list_all (\<lambda>s. rs_completion s \<noteq> None) (ls_states ls)"
    using all_completed [OF inv pe] by (simp add: list_all_iff del: not_None_eq)
  then show "\<exists>fin. run_batch_rounds fuel E P many params sk inc = Inr fin \<and> ls_raised fin = None \<and>
         wlog = ls_watch_log fin \<and> out = post_run P (collect sk (ls_states fin)) \<and>
         length (ls_states fin) = length many \<and>
         list_all (\<lambda>s. rs_completion s \<noteq> None) (ls_states fin)"
    using run_batch_loop_rounds [OF lp] nr wl out len by blast
next
  assume "run_many fuel E P cnt params sk inc = Some (Inr out', wlog', calls')"
  from run_many_returns [OF this] obtain ls
    where lp: "run_many_loop fuel E P cnt params sk inc = Some (Inr ls)"
      and nr: "ls_raised ls = None"
      and out: "out' = post_run P (collect sk (ls_states ls))"
      and wl: "wlog' = ls_watch_log ls" by blast
  from run_many_loop_facts [OF lp] nr
  have len: "int (length (ls_states ls)) = cnt"
    and inv: "loop_inv P sk inc ls" and pe: "ls_pending ls = []" by simp_all
  have "list_all (\<lambda>s. rs_completion s \<noteq> None) (ls_states ls)"
    using all_completed [OF inv pe] by (simp add: list_all_iff del: not_None_eq)
  then show "\<exists>fin. run_many_rounds fuel E P cnt params sk inc = Inr fin \<and> ls_raised fin = None \<and>
         wlog' = ls_watch_log fin \<and> out' = post_run P (collect sk (ls_states fin)) \<and>
         int (length (ls_states fin)) = cnt \<and>
         list_all (\<lambda>s. rs_completion s \<noteq> None) (ls_states fin)"
    using run_many_loop_rounds [OF lp] nr wl out len by blast
qed

theorem C4_witness:
  "(\<exists>ls. run_batch_rounds 1 slow_env (watched_pipeline 2) [''b'', ''a'', ''c''] None False True
           = Inr ls \<and> ls_raised ls = None \<and> ls_pending ls = [0, 2] \<and>
      list_all (\<lambda>s. rs_watched s = (rs_completion s \<noteq> None)) (ls_states ls) \<and>
      (\<forall>w. mset (deliveries w (ls_watch_log ls)) =
            repeat_mset (count_list (watch_callbacks (watched_pipeline 2)) w)
              (mset (collect False (ls_states ls))))) \<and>
   (\<exists>ls. run_many_rounds 1 slow_env (watched_pipeline 2) 2 None False True = Inr ls \<and>
      ls_raised ls = None \<and> ls_pending ls = [0, 1] \<and>
      list_all (\<lambda>s. rs_watched s = (rs_completion s \<noteq> None)) (ls_states ls) \<and>
      (\<forall>w. mset (deliveries w (ls_watch_log ls)) =
            repeat_mset (count_list (watch_callbacks (watched_pipeline 2)) w)
              (mset (collect False (ls_states ls))))) \<and>
   run_batch 5 slow_env (watched_pipeline 2) [''b'', ''a'', ''c''] None False True =
   Some (Inr [a_completion [] ''ok'' 0 False, a_completion [] ''ok'' 0 False,
              a_completion [] ''ok'' 0 False],
         [(7, [a_completion [] ''ok'' 0 False]),
          (7, [a_completion [] ''ok'' 0 False, a_completion [] ''ok'' 0 False])],
         [([''b'', ''a'', ''c''], [0, 0, 0]), ([''b'', ''c''], [0, 0])]) \<and>
   (\<exists>fin. run_batch_rounds 5 slow_env (watched_pipeline 2) [''b'', ''a'', ''c''] None False True
            = Inr fin \<and> ls_raised fin = None \<and>
      [(7, [a_completion [] ''ok'' 0 False]),
       (7, [a_completion [] ''ok'' 0 False, a_completion [] ''ok'' 0 False])] = ls_watch_log fin \<and>
      [a_completion [] ''ok'' 0 False, a_completion [] ''ok'' 0 False,
       a_completion [] ''ok'' 0 False] =
        post_run (watched_pipeline 2) (collect False (ls_states fin)) \<and>
      length (ls_states fin) = length [''b'', ''a'', ''c''] \<and>
      list_all (\<lambda>s. rs_completion s \<noteq> None) (ls_states fin)) \<and>
   run_many 5 slow_env (watched_pipeline 2) 2 None False True =
   Some (Inr [a_completion [] ''ok'' 0 False, a_completion [] ''ok'' 0 False],
         [(7, []), (7, [a_completion [] ''ok'' 0 False, a_completion [] ''ok'' 0 False])],
         [([[], []], [0, 0]), ([[], []], [0, 0])]) \<and>
   (\<exists>fin. run_many_rounds 5 slow_env (watched_pipeline 2) 2 None False True = Inr fin \<and>
      ls_raised fin = None \<and>
      [(7, []), (7, [a_completion [] ''ok'' 0 False, a_completion [] ''ok'' 0 False])]
        = ls_watch_log fin \<and>
      [a_completion [] ''ok'' 0 False, a_completion [] ''ok'' 0 False] =
        post_run (watched_pipeline 2) (collect False (ls_states fin)) \<and>
      int (length (ls_states fin)) = 2 \<and>
      list_all (\<lambda>s. rs_completion s \<noteq> None) (ls_states fin))"
proof -
  from batch_after_one_round obtain lb
    where b: "run_batch_rounds 1 slow_env (watched_pipeline 2) [''b'', ''a'', ''c''] None False True
                = Inr lb" "ls_raised lb = None" "ls_pending lb = [0, 2]" by blast
  from many_after_one_round obtain lm
    where m: "run_many_rounds 1 slow_env (watched_pipeline 2) 2 None False True = Inr lm"
      "ls_raised lm = None" "ls_pending lm = [0, 1]" by blast
  from C4_watch_once_per_record [of 1 slow_env "watched_pipeline 2" "[''b'', ''a'', ''c'']" None
      False True lb 2 lm 5
      "[a_completion [] ''ok'' 0 False, a_completion [] ''ok'' 0 False,
        a_completion [] ''ok'' 0 False]"
      "[(7, [a_completion [] ''ok'' 0 False]),
        (7, [a_completion [] ''ok'' 0 False, a_completion [] ''ok'' 0 False])]"
      "[([''b'', ''a'', ''c''], [0, 0, 0]), ([''b'', ''c''], [0, 0])]"
      "[a_completion [] ''ok'' 0 False, a_completion [] ''ok'' 0 False]"
      "[(7, []), (7, [a_completion [] ''ok'' 0 False, a_completion [] ''ok'' 0 False])]"
      "[([[], []], [0, 0]), ([[], []], [0, 0])]"]
    b m batch_two_rounds many_two_rounds
  show ?thesis by blast
qed

theorem C4_counterexample:
  "run_batch_loop 5 slow_env (watched_pipeline 1) [''a'', ''b''] None False False =
     Some (Inr \<lparr>ls_states =
        [\<lparr>rs_text = ''a'', rs_params = 0,
          rs_processor = \<lparr>current_round = 1, should_retry = False, generated = Some ''ok''\<rparr>,
          rs_completion = Some (a_completion [] ''ok'' 0 False), rs_watched = False\<rparr>,
         \<lparr>rs_text = ''b'', rs_params = 0,
          rs_processor = \<lparr>current_round = 1, should_retry = True, generated = Some ''bad''\<rparr>,
          rs_completion = None, rs_watched = False\<rparr>],
        ls_pending = [0, 1], ls_calls = [([''a'', ''b''], [0, 0])], ls_watch_log = [],
        ls_raised = Some (CompletionExhaustedMaxRoundsError 1 ''bad'')\<rparr>) \<and>
   run_batch 5 slow_env (watched_pipeline 1) [''a'', ''b''] None False False =
     Some (Inl (CompletionExhaustedMaxRoundsError 1 ''bad''), [], [([''a'', ''b''], [0, 0])]) \<and>
   watch_callbacks (watched_pipeline 1) = [7]"
  by (simp add: run_defs example_defs)

text \<open>
  Claim C7, as amended. The claim: every Completion returned by \<open>run\<close>, \<open>run_many\<close> or
  \<open>run_batch\<close> has \<open>failed=True\<close> only if it was produced through the
  max-rounds-exhausted path (which yields a record only under \<open>skip_failed\<close> or
  \<open>include_failed\<close>), and its generated text is the last chunk received for the request.
  It fails for a record that a Then (or Map) callback puts in the place of the run's
  own: a Then callback may return a record flagged failed (the counterexample below).
  Amended: every record that a returning run has made for a request, these being the
  records handed to post-processing and so the returned ones unless a Map or Then
  callback replaces them, is flagged failed only if one of the two flags is set
  (\<open>allow_failed\<close> for \<open>run\<close>) and the request's generator left through the exhausted
  path, and then its generated text is the chunk that generator received last.
\<close>

theorem C7_failed_only_when_exhausted:
  "(run_batch fuel E P many params sk inc = Some (Inr out, wlog, calls) \<longrightarrow>
      (\<exists>ls. run_batch_loop fuel E P many params sk inc = Some (Inr ls) \<and>
         out = post_run P (collect sk (ls_states ls)) \<and>
         (\<forall>s\<in>set (ls_states ls). \<forall>c. rs_completion s = Some c \<and> c_failed c \<longrightarrow>
            (sk \<or> inc) \<and> exhausted P (rs_processor s) \<and>
            generated (rs_processor s) = Some (c_generated c)))) \<and>
   (run_many fuel E P cnt params sk inc = Some (Inr out', wlog', calls') \<longrightarrow>
      (\<exists>ls. run_many_loop fuel E P cnt params sk inc = Some (Inr ls) \<and>
         out' = post_run P (collect sk (ls_states ls)) \<and>
         (\<forall>s\<in>set (ls_states ls). \<forall>c. rs_completion s = Some c \<and> c_failed c \<longrightarrow>
            (sk \<or> inc) \<and> exhausted P (rs_processor s) \<and>
            generated (rs_processor s) = Some (c_generated c)))) \<and>
   (run fuel E P allow_failed = Some (Inr c1, wlog1, calls1) \<longrightarrow>
      (\<exists>ls. run_many_loop fuel E P 1 None False allow_failed = Some (Inr ls) \<and>
         post_run P (collect False (ls_states ls)) \<noteq> [] \<and>
         c1 = hd (post_run P (collect False (ls_states ls))) \<and>
         (\<forall>s\<in>set (ls_states ls). \<forall>c. rs_completion s = Some c \<and> c_failed c \<longrightarrow>
            allow_failed \<and> exhausted P (rs_processor s) \<and>
            generated (rs_processor s) = Some (c_generated c))))"
proof (intro conjI impI)
  assume "run_batch fuel E P many params sk inc = Some (Inr out, wlog, calls)"
  from run_batch_returns [OF this] obtain ls
    where lp: "run_batch_loop fuel E P many params sk inc = Some (Inr ls)"
      and nr: "ls_raised ls = None"
      and out: "out = post_run P (collect sk (ls_states ls))" by blast
  from run_batch_loop_facts [OF lp] nr have inv: "loop_inv P sk inc ls" by simp
  show "\<exists>ls. run_batch_loop fuel E P many params sk inc = Some (Inr ls) \<and>
         out = post_run P (collect sk (ls_states ls)) \<and>
         (\<forall>s\<in>set (ls_states ls). \<forall>c. rs_completion s = Some c \<and> c_failed c \<longrightarrow>
            (sk \<or> inc) \<and> exhausted P (rs_processor s) \<and>
            generated (rs_processor s) = Some (c_generated c))"
    using lp out produced_all [OF inv] by (intro exI [of _ ls]) (auto simp: produced_def)
next
  assume "run_many fuel E P cnt params sk inc = Some (Inr out', wlog', calls')"
  from run_many_returns [OF this] obtain ls
    where lp: "run_many_loop fuel E P cnt params sk inc = Some (Inr ls)"
      and nr: "ls_raised ls = None"
      and out: "out' = post_run P (collect sk (ls_states ls))" by blast
  from run_many_loop_facts [OF lp] nr have inv: "loop_inv P sk inc ls" by simp
  show "\<exists>ls. run_many_loop fuel E P cnt params sk inc = Some (Inr ls) \<and>
         out' = post_run P (collect sk (ls_states ls)) \<and>
         (\<forall>s\<in>set (ls_states ls). \<forall>c. rs_completion s = Some c \<and> c_failed c \<longrightarrow>
            (sk \<or> inc) \<and> exhausted P (rs_processor s) \<and>
            generated (rs_processor s) = Some (c_generated c))"
    using lp out produced_all [OF inv] by (intro exI [of _ ls]) (auto simp: produced_def)
next
  assume r: "run fuel E P allow_failed = Some (Inr c1, wlog1, calls1)"
  then obtain chats where rm: "run_many fuel E P 1 None False allow_failed = Some (Inr chats, wlog1, calls1)"
    and ne: "chats \<noteq> []" and c1: "c1 = hd chats"
    by (auto simp: run_def split: option.splits sum.splits list.splits prod.splits)
  from run_many_returns [OF rm] obtain ls
    where lp: "run_many_loop fuel E P 1 None False allow_failed = Some (Inr ls)"
      and nr: "ls_raised ls = None"
      and out: "chats = post_run P (collect False (ls_states ls))" by blast
  from run_many_loop_facts [OF lp] nr have inv: "loop_inv P False allow_failed ls" by simp
  show "\<exists>ls. run_many_loop fuel E P 1 None False allow_failed = Some (Inr ls) \<and>
         post_run P (collect False (ls_states ls)) \<noteq> [] \<and>
         c1 = hd (post_run P (collect False (ls_states ls))) \<and>
         (\<forall>s\<in>set (ls_states ls). \<forall>c. rs_completion s = Some c \<and> c_failed c \<longrightarrow>
            allow_failed \<and> exhausted P (rs_processor s) \<and>
            generated (rs_processor s) = Some (c_generated c))"
    using lp out ne c1 produced_all [OF inv] by (intro exI [of _ ls]) (auto simp: produced_def)
qed


theorem C7_witness:
  "run_batch 5 slow_env (watched_pipeline 1) [''a'', ''b''] None False True =
   Some (Inr [a_completion [] ''ok'' 0 False, a_completion [] ''bad'' 0 True],
         [(7, [a_completion [] ''ok'' 0 False, a_completion [] ''bad'' 0 True])],
         [([''a'', ''b''], [0, 0])]) \<and>
   (\<exists>ls. run_batch_loop 5 slow_env (watched_pipeline 1) [''a'', ''b''] None False True
            = Some (Inr ls) \<and>
      [a_completion [] ''ok'' 0 False, a_completion [] ''bad'' 0 True] =
        post_run (watched_pipeline 1) (collect False (ls_states ls)) \<and>
      (\<forall>s\<in>set (ls_states ls). \<forall>c. rs_completion s = Some c \<and> c_failed c \<longrightarrow>
         (False \<or> True) \<and> exhausted (watched_pipeline 1) (rs_processor s) \<and>
         generated (rs_processor s) = Some (c_generated c))) \<and>
   run_many 5 slow_env (watched_pipeline 1) 2 None False True =
   Some (Inr [a_completion [] ''bad'' 0 True, a_completion [] ''bad'' 0 True],
         [(7, [a_completion [] ''bad'' 0 True, a_completion [] ''bad'' 0 True])],
         [([[], []], [0, 0])]) \<and>
   (\<exists>ls. run_many_loop 5 slow_env (watched_pipeline 1) 2 None False True = Some (Inr ls) \<and>
      [a_completion [] ''bad'' 0 True, a_completion [] ''bad'' 0 True] =
        post_run (watched_pipeline 1) (collect False (ls_states ls)) \<and>
      (\<forall>s\<in>set (ls_states ls). \<forall>c. rs_completion s = Some c \<and> c_failed c \<longrightarrow>
         (False \<or> True) \<and> exhausted (watched_pipeline 1) (rs_processor s) \<and>
         generated (rs_processor s) = Some (c_generated c))) \<and>
   run 5 slow_env (watched_pipeline 1) True =
   Some (Inr (a_completion [] ''bad'' 0 True),
         [(7, [a_completion [] ''bad'' 0 True])], [([[]], [0])]) \<and>
   (\<exists>ls. run_many_loop 5 slow_env (watched_pipeline 1) 1 None False True = Some (Inr ls) \<and>
      post_run (watched_pipeline 1) (collect False (ls_states ls)) \<noteq> [] \<and>
      a_completion [] ''bad'' 0 True =
        hd (post_run (watched_pipeline 1) (collect False (ls_states ls))) \<and>
      (\<forall>s\<in>set (ls_states ls). \<forall>c. rs_completion s = Some c \<and> c_failed c \<longrightarrow>
         True \<and> exhausted (watched_pipeline 1) (rs_processor s) \<and>
         generated (rs_processor s) = Some (c_generated c)))"
  using C7_failed_only_when_exhausted [of 5 slow_env "watched_pipeline 1" "[''a'', ''b'']" None
      False True
      "[a_completion [] ''ok'' 0 False, a_completion [] ''bad'' 0 True]"
      "[(7, [a_completion [] ''ok'' 0 False, a_completion [] ''bad'' 0 True])]"
      "[([''a'', ''b''], [0, 0])]" 2
      "[a_completion [] ''bad'' 0 True, a_completion [] ''bad'' 0 True]"
      "[(7, [a_completion [] ''bad'' 0 True, a_completion [] ''bad'' 0 True])]"
      "[([[], []], [0, 0])]" True
      "a_completion [] ''bad'' 0 True" "[(7, [a_completion [] ''bad'' 0 True])]" "[([[]], [0])]"]
    batch_with_failure many_with_failure run_with_failure
  by blast

theorem C7_counterexample:
  "run 5 slow_env flagging_pipeline False =
     Some (Inr (a_completion ''s'' ''bad'' 0 True), [], [([''s''], [0])]) \<and>
   until_callbacks flagging_pipeline = []"
  by (simp add: run_def run_defs example_defs flagging_pipeline_def flag_failed_def)

text \<open>
  Claim C10, as amended. The claim: \<open>run_batch\<close> calls the backend with the pipeline's
  text followed by each input text, but the text field of each returned Completion is
  the pipeline's text alone. The second half fails for a record that a Then (or Map)
  callback puts in the place of the run's own (the counterexample below). Amended: in
  every execution, after any number of rounds, the texts of every call of the backend
  are a subsequence of the inputs, each prefixed with the pipeline's text, and the
  first call holds all of them; in an execution that returns, the backend has been
  called unless there is no input, and every record that the run hands to
  post-processing, and so every returned record that no Map or Then callback replaces,
  has the pipeline's text as its text field, which is not the text sent to the backend
  for any non-empty input.
\<close>

theorem C10_batch_text_is_seed:
  "(run_batch_rounds n E P many params sk inc = Inr ls \<longrightarrow>
      (\<forall>call\<in>set (ls_calls ls). subseq (fst call) (map (\<lambda>m. p_text P @ m) many)) \<and>
      (ls_calls ls \<noteq> [] \<longrightarrow> fst (hd (ls_calls ls)) = map (\<lambda>m. p_text P @ m) many)) \<and>
   (run_batch fuel E P many params sk inc = Some (Inr out, wlog, calls) \<longrightarrow>
      (\<exists>fin. run_batch_rounds fuel E P many params sk inc = Inr fin \<and> calls = ls_calls fin \<and>
         (many \<noteq> [] \<longrightarrow> calls \<noteq> []) \<and>
         out = post_run P (collect sk (ls_states fin)) \<and>
         length (collect sk (ls_states fin)) \<le> length many \<and>
         (\<forall>c\<in>set (collect sk (ls_states fin)).
            c_text c = p_text P \<and> (\<forall>m\<in>set many. m \<noteq> [] \<longrightarrow> c_text c \<noteq> p_text P @ m))))"
proof (intro conjI impI)
  assume a: "run_batch_rounds n E P many params sk inc = Inr ls"
  from run_batch_rounds_facts [OF a]
  show "\<forall>call\<in>set (ls_calls ls). subseq (fst call) (map (\<lambda>m. p_text P @ m) many)"
    by simp
  assume "ls_calls ls \<noteq> []"
  with run_batch_rounds_facts [OF a]
  show "fst (hd (ls_calls ls)) = map (\<lambda>m. p_text P @ m) many" by simp
next
  assume run: "run_batch fuel E P many params sk inc = Some (Inr out, wlog, calls)"
  from run_batch_returns [OF run] obtain ls
    where lp: "run_batch_loop fuel E P many params sk inc = Some (Inr ls)"
      and nr: "ls_raised ls = None"
      and out: "out = post_run P (collect sk (ls_states ls))"
      and ca: "calls = ls_calls ls" by blast
  from run_batch_loop_facts [OF lp] nr
  have len: "length (ls_states ls) = length many"
    and inv: "loop_inv P sk inc ls" by simp_all
  have t: "c_text c = p_text P" if "c \<in> set (collect sk (ls_states ls))" for c
    using collect_subset [OF that] produced_all [OF inv] by (auto simp: produced_def)
  have l: "length (collect sk (ls_states ls)) \<le> length many"
    using len by (auto simp: collect_def intro: le_trans [OF length_filter_le])
  have ne: "many \<noteq> [] \<longrightarrow> calls \<noteq> []" using run_batch_loop_calls [OF lp] ca by simp
  have "\<forall>c\<in>set (collect sk (ls_states ls)).
            c_text c = p_text P \<and> (\<forall>m\<in>set many. m \<noteq> [] \<longrightarrow> c_text c \<noteq> p_text P @ m)"
    using t by auto
  then show "\<exists>fin. run_batch_rounds fuel E P many params sk inc = Inr fin \<and> calls = ls_calls fin \<and>
         (many \<noteq> [] \<longrightarrow> calls \<noteq> []) \<and>
         out = post_run P (collect sk (ls_states fin)) \<and>
         length (collect sk (ls_states fin)) \<le> length many \<and>
         (\<forall>c\<in>set (collect sk (ls_states fin)).
            c_text c = p_text P \<and> (\<forall>m\<in>set many. m \<noteq> [] \<longrightarrow> c_text c \<noteq> p_text P @ m))"
    using run_batch_loop_rounds [OF lp] ca ne out l by blast
qed

theorem C10_witness:
  "(\<exists>ls. run_batch_rounds 1 slow_env seeded_pipeline [''a'', ''b''] None False False = Inr ls \<and>
      ls_calls ls = [([''sa'', ''sb''], [0, 0])] \<and>
      subseq (fst (hd (ls_calls ls))) (map (\<lambda>m. p_text seeded_pipeline @ m) [''a'', ''b'']) \<and>
      ls_calls ls \<noteq> [] \<and>
      fst (hd (ls_calls ls)) = map (\<lambda>m. p_text seeded_pipeline @ m) [''a'', ''b'']) \<and>
   run_batch 5 slow_env seeded_pipeline [''a'', ''b''] None False False =
   Some (Inr [a_completion ''s'' ''bad'' 0 False, a_completion ''s'' ''bad'' 0 False],
         [], [([''sa'', ''sb''], [0, 0])]) \<and>
   (\<exists>fin. run_batch_rounds 5 slow_env seeded_pipeline [''a'', ''b''] None False False = Inr fin \<and>
      [([''sa'', ''sb''], [0 :: nat, 0])] = ls_calls fin \<and>
      [''a'', ''b''] \<noteq> [] \<and> [([''sa'', ''sb''], [0 :: nat, 0])] \<noteq> [] \<and>
      [a_completion ''s'' ''bad'' 0 False, a_completion ''s'' ''bad'' 0 False] =
        post_run seeded_pipeline (collect False (ls_states fin)) \<and>
      length (collect False (ls_states fin)) \<le> length [''a'', ''b''] \<and>
      (\<forall>c\<in>set (collect False (ls_states fin)).
         c_text c = p_text seeded_pipeline \<and>
         (\<forall>m\<in>set [''a'', ''b'']. m \<noteq> [] \<longrightarrow> c_text c \<noteq> p_text seeded_pipeline @ m)))"
proof -
  from seeded_after_one_round obtain l1
    where a: "run_batch_rounds 1 slow_env seeded_pipeline [''a'', ''b''] None False False = Inr l1"
      "ls_calls l1 = [([''sa'', ''sb''], [0, 0])]" by blast
  have ne: "ls_calls l1 \<noteq> []" and hd: "hd (ls_calls l1) \<in> set (ls_calls l1)" using a(2) by simp_all
  have ne2: "[''a'', ''b''] \<noteq> []" "[([''sa'', ''sb''], [0 :: nat, 0])] \<noteq> []" by simp_all
  from C10_batch_text_is_seed [of 1 slow_env seeded_pipeline "[''a'', ''b'']" None False False l1 5
      "[a_completion ''s'' ''bad'' 0 False, a_completion ''s'' ''bad'' 0 False]" "[]"
      "[([''sa'', ''sb''], [0, 0])]"]
    a ne hd ne2 seeded_batch
  show ?thesis by blast
qed

theorem C10_counterexample:
  "run_batch 5 slow_env retitling_pipeline [''a''] None False False =
     Some (Inr [a_completion ''t'' ''bad'' 0 False], [], [([''sa''], [0])]) \<and>
   p_text retitling_pipeline = ''s''"
  by (simp add: run_defs example_defs retitling_pipeline_def retitle_def)

text \<open>
  Claim C8. Supplying both \<open>skip_failed\<close> and \<open>include_failed\<close>, or a \<open>params\<close> sequence
  whose length differs from the number of items, makes \<open>run_many\<close> and \<open>run_batch\<close> raise
  \<open>ValueError\<close> before any call of the backend: whatever the fuel, the run ends with the
  error, no call of the backend and no call of a Watch callback.
\<close>

theorem C8_configuration_errors:
  "run_many fuel E P cnt params True True = Some (Inl ValueError_both_flags, [], []) \<and>
   run_batch fuel E P many params True True = Some (Inl ValueError_both_flags, [], []) \<and>
   (int (length ps) \<noteq> cnt \<longrightarrow>
      run_many fuel E P cnt (Some ps) sk inc =
        Some (Inl (if sk \<and> inc then ValueError_both_flags else ValueError_params_count cnt),
              [], [])) \<and>
   (length ps \<noteq> length many \<longrightarrow>
      run_batch fuel E P many (Some ps) sk inc =
        Some (Inl (if sk \<and> inc then ValueError_both_flags
                   else ValueError_params_count (int (length many))), [], []))"
  by (simp add: run_many_def run_batch_def run_many_loop_def run_batch_loop_def fit_params_def
      conclude_def)

theorem C8_witness:
  "run_many 0 slow_env (watched_pipeline 2) 2 None True True =
     Some (Inl ValueError_both_flags, [], []) \<and>
   run_batch 0 slow_env (watched_pipeline 2) [''a'', ''b''] None True True =
     Some (Inl ValueError_both_flags, [], []) \<and>
   int (length [Some (1 :: nat)]) \<noteq> 2 \<and>
   run_many 0 slow_env (watched_pipeline 2) 2 (Some [Some 1]) False True =
     Some (Inl (ValueError_params_count 2), [], []) \<and>
   length [Some (1 :: nat)] \<noteq> length [''a'', ''b''] \<and>
   run_batch 0 slow_env (watched_pipeline 2) [''a'', ''b''] (Some [Some 1]) False True =
     Some (Inl (ValueError_params_count 2), [], [])"
  using C8_configuration_errors [of 0 slow_env "watched_pipeline 2" 2 None "[''a'', ''b'']"
      "[Some 1]" False True]
  by simp

section \<open>Properties of the registry\<close>

lemmas reg_defs = pipeline_init_def alloc_until_def alloc_types_def alloc_callbacks_def
  watch_def watch_one_def then'_def map'_def until_def until_parsed_as_def clone_def
  until_of_def types_of_def then_of_def map_of'_def watch_of_def Let_def

lemma clone_fresh:
  assumes "valid h P" "clone P only_text h = (C, h1)"
  shows "C \<noteq> P \<and> lists_of h1 P = lists_of h P \<and> apart h1 C P \<and>
     (watch_of h P = [] \<longrightarrow> watch_apart h1 C P) \<and>
     (watch_of h P \<noteq> [] \<longrightarrow>
        o_watch_callbacks (pipelines h1 C) = o_watch_callbacks (pipelines h1 P))"
  using assms
  by (cases only_text)
     (auto simp: valid_def lists_of_def apart_def watch_apart_def reg_defs
           split: if_splits prod.splits)

lemma until_frame:
  "apart h c p \<Longrightarrow> lists_of (until c cb a m h) p = lists_of h p"
  by (simp add: apart_def lists_of_def until_def until_of_def types_of_def then_of_def
      map_of'_def watch_of_def Let_def)

lemma until_parsed_as_frame:
  "apart h c p \<Longrightarrow> lists_of (until_parsed_as c ts a m h) p = lists_of h p"
  by (simp add: apart_def lists_of_def until_parsed_as_def until_of_def types_of_def then_of_def
      map_of'_def watch_of_def Let_def)

lemma then'_frame:
  "apart h c p \<Longrightarrow> lists_of (then' c n h) p = lists_of h p"
  by (simp add: apart_def lists_of_def then'_def until_of_def types_of_def then_of_def
      map_of'_def watch_of_def Let_def)

lemma map'_frame:
  "apart h c p \<Longrightarrow> lists_of (map' c n h) p = lists_of h p"
  by (simp add: apart_def lists_of_def map'_def until_of_def types_of_def then_of_def
      map_of'_def watch_of_def Let_def)

lemma watch_effect:
  "pipelines (watch self cbs allow h) = pipelines h \<and>
   until_lists (watch self cbs allow h) = until_lists h \<and>
   type_lists (watch self cbs allow h) = type_lists h \<and>
   (\<forall>r. r \<noteq> o_watch_callbacks (pipelines h self) \<longrightarrow>
        callback_lists (watch self cbs allow h) r = callback_lists h r)"
proof (induction cbs arbitrary: h)
  case Nil
  then show ?case by (simp add: watch_def)
next
  case (Cons cb cbs)
  have w: "watch self (cb # cbs) allow h = watch self cbs allow (watch_one self allow cb h)"
    by (simp add: watch_def)
  have o: "pipelines (watch_one self allow cb h) = pipelines h \<and>
   until_lists (watch_one self allow cb h) = until_lists h \<and>
   type_lists (watch_one self allow cb h) = type_lists h \<and>
   (\<forall>r. r \<noteq> o_watch_callbacks (pipelines h self) \<longrightarrow>
        callback_lists (watch_one self allow cb h) r = callback_lists h r)"
    by (simp add: watch_one_def Let_def)
  show ?case unfolding w using Cons.IH [of "watch_one self allow cb h"] o by simp
qed

lemma watch_frame:
  assumes "watch_apart h c p"
  shows "lists_of (watch c cbs allow h) p = lists_of h p"
  using assms watch_effect [of c cbs allow h]
  by (simp add: watch_apart_def lists_of_def until_of_def types_of_def then_of_def
      map_of'_def watch_of_def)

lemma register_on_clone:
  assumes v: "valid h P" and c: "clone P only_text h = (C, h1)"
  shows "lists_of (until C cb a m h1) P = lists_of h P \<and>
         lists_of (until_parsed_as C ts a m h1) P = lists_of h P \<and>
         lists_of (then' C n h1) P = lists_of h P \<and>
         lists_of (map' C n h1) P = lists_of h P \<and>
         (watch_of h P = [] \<longrightarrow> lists_of (watch C cbs allow h1) P = lists_of h P)"
  using clone_fresh [OF v c]
  by (simp add: until_frame until_parsed_as_frame then'_frame map'_frame watch_frame)

lemma watch_on_clone_shared:
  assumes v: "valid h P" and c: "clone P only_text h = (C, h1)" and ne: "watch_of h P \<noteq> []"
  shows "watch_of (watch C cbs allow h1) P = watch_of (watch C cbs allow h1) C"
  using clone_fresh [OF v c] ne watch_effect [of C cbs allow h1]
  by (simp add: watch_of_def)

lemma pipeline_init_valid:
  "pipeline_init txt params None h = (P, h1) \<Longrightarrow>
     valid h1 P \<and> lists_of h1 P = ([], [], [], [], [])"
  by (auto simp: valid_def lists_of_def reg_defs split: prod.splits)


lemma is_parse_own:
  "list_all (\<lambda>c. fst c = ParseCallback p) (filter is_parse l) \<Longrightarrow>
   find (\<lambda>c. fst c = ParseCallback p) l = None \<Longrightarrow> filter is_parse l = []"
proof (induction l)
  case Nil
  then show ?case by simp
next
  case (Cons c l)
  then show ?case by (cases c rule: is_parse.cases) (auto split: if_splits)
qed

lemma until_parsed_as_own:
  assumes "own_parse h p"
  shows "own_parse (until_parsed_as p ts a m h) p \<and>
         types_of (until_parsed_as p ts a m h) p = types_of h p @ ts"
proof -
  let ?l = "until_lists h (o_until_callbacks (pipelines h p))"
  have own: "list_all (\<lambda>c. fst c = ParseCallback p) (filter is_parse ?l)"
    and le: "length (filter is_parse ?l) \<le> 1"
    using assms by (simp_all add: own_parse_def parse_entries_def until_of_def)
  show ?thesis
  proof (cases "find (\<lambda>c. fst c = ParseCallback p) ?l = None")
    case True
    from is_parse_own [OF own True] True show ?thesis
      by (simp add: own_parse_def parse_entries_def until_of_def types_of_def
          until_parsed_as_def Let_def)
  next
    case False
    then show ?thesis using own le
      by (auto simp: own_parse_def parse_entries_def until_of_def types_of_def
          until_parsed_as_def Let_def)
  qed
qed

lemma parsed_calls_own:
  "own_parse h p \<Longrightarrow>
     own_parse (parsed_calls p calls h) p \<and>
     types_of (parsed_calls p calls h) p = types_of h p @ concat (map fst calls)"
proof (induction calls arbitrary: h)
  case Nil
  then show ?case by (simp add: parsed_calls_def)
next
  case (Cons c calls)
  obtain ts a m where c: "c = (ts, a, m)" by (cases c)
  have s: "parsed_calls p (c # calls) h = parsed_calls p calls (until_parsed_as p ts a m h)"
    by (simp add: parsed_calls_def c)
  note u = until_parsed_as_own [OF Cons.prems, of ts a m]
  from Cons.IH [of "until_parsed_as p ts a m h"] u show ?case
    unfolding s by (simp add: c)
qed

lemma fresh_pipeline_single_parse_entry:
  assumes "pipeline_init txt params None h = (P, h1)"
  shows "length (parse_entries (parsed_calls P calls h1) P) \<le> 1 \<and>
         types_of (parsed_calls P calls h1) P = concat (map fst calls)"
proof -
  from pipeline_init_valid [OF assms] have l: "lists_of h1 P = ([], [], [], [], [])" by simp
  then have "own_parse h1 P" by (simp add: own_parse_def parse_entries_def lists_of_def)
  from parsed_calls_own [OF this, of calls] l show ?thesis
    by (simp add: own_parse_def lists_of_def)
qed

section \<open>The claims about post-processing and the registry\<close>

text \<open>What holds of \<open>_post_run\<close>: the Map callbacks are chained, and a Then callback's
  replacement is taken when it is true in a Boolean context.\<close>

lemma maps_chained:
  "fold (\<lambda>map_callback cs. map_callback cs) (ms @ [m]) cs =
     m (fold (\<lambda>map_callback cs. map_callback cs) ms cs)"
  by simp

lemma then_replacement:
  "apply_then cb [chat] =
     [case cb chat of None \<Rightarrow> chat | Some n \<Rightarrow> if truthy n then n else chat]"
  by (simp add: apply_then_def)

text \<open>
  Claim C5 (the code departs from it). The claim: Map callbacks run first, chained;
  then the Then callbacks run in registration order, and whenever a Then callback
  returns a non-None Completion, that replacement is the record seen by every later
  Then callback and in the returned list. The code takes the replacement by
  \<open>new or chat\<close>, and a Completion whose text and generated text are both empty has
  length 0 and is false: \<open>blank_then\<close> returns such a record, the original is kept,
  \<open>exclaim\<close> is applied to the original, and the returned list holds the original with
  the mark appended.
\<close>

theorem C5_empty_replacement_dropped:
  "blank_then (a_completion ''s'' ''ok'' 0 False) = Some (a_completion [] [] 0 False) \<and>
   post_run blanking_pipeline [a_completion ''s'' ''ok'' 0 False] =
     [a_completion ''s'' ''ok!'' 0 False]"
  by (simp add: post_run_def apply_then_def truthy_def completion_len_def blanking_pipeline_def
      blank_then_def exclaim_def a_completion_def)

text \<open>
  Claim C6 (the code departs from it). The claim: after \<open>C = P.clone()\<close>, registering a
  new Until, Then, Map or Watch callback on \<open>C\<close> leaves every callback list of \<open>P\<close>
  unchanged. This holds for Until, Then and Map, whose lists \<open>clone\<close> copies, and for
  Watch when the Watch list of \<open>P\<close> is empty (\<open>register_on_clone\<close>). \<open>clone\<close> passes
  \<open>self.watch_callbacks\<close> itself to the constructor, which keeps a non-empty list as it
  is: the clone then shares the list object (\<open>watch_on_clone_shared\<close>), and \<open>C.watch\<close>
  appends to the Watch list of \<open>P\<close>.
\<close>

theorem C6_clone_shares_watch_list:
  "(let (P, h0) = pipeline_init [] None None empty_heap;
        h1 = watch P [1] False h0;
        (C, h2) = clone P False h1;
        h3 = watch C [2] False h2
    in C \<noteq> P \<and> watch_of h1 P = [1] \<and> watch_of h2 P = [1] \<and> watch_of h3 P = [1, 2])"
  by (simp add: reg_defs empty_heap_def)

text \<open>
  Claim C9 (the code departs from it). The claim: after every sequence of
  \<open>until_parsed_as\<close> calls on a pipeline, its Until list holds at most one entry for the
  structured-parse validator, and all the requested types are in the list of types that
  this validator uses. This holds for a pipeline made by the constructor
  (\<open>fresh_pipeline_single_parse_entry\<close>). A clone copies the Until list with the entry
  bound to the original; the test \<open>c[0] == self._until_parse_callback\<close> compares bound
  methods, which differ when bound to different objects, so \<open>until_parsed_as\<close> on the
  clone appends a second entry. The first entry reads the original's list of types.
\<close>

theorem C9_clone_gets_second_parse_entry:
  "(let (P, h0) = pipeline_init [] None None empty_heap;
        h1 = until_parsed_as P [10] False 5 h0;
        (C, h2) = clone P False h1;
        h3 = until_parsed_as C [11] False 5 h2
    in C \<noteq> P \<and>
       parse_entries h3 C = [(ParseCallback P, False, 5), (ParseCallback C, False, 5)] \<and>
       types_of h3 C = [10, 11] \<and> types_of h3 P = [10])"
  by (simp add: reg_defs parse_entries_def empty_heap_def)

end
